theory Spec2Isabelle
  imports Main "HOL-Library.Word" "HOL-Library.Char_ord" "HOL-Library.List_Lexorder"
    "HOL-Library.Monad_Syntax"
begin

unbundle bit_operations_syntax

section \<open>Common material\<close>

type_synonym byte = "8 word"
type_synonym bytes = "byte list"

text \<open>
  A Go run-time panic is a value of this type: an index or a slice bound out of range, and
  the explicit \<^verbatim>\<open>panic\<close> calls of the B-tree.
\<close>

datatype panic = IndexOutOfRange | SliceOutOfRange | NilItem

text \<open>Go's \<^verbatim>\<open>/\<close> and \<^verbatim>\<open>%\<close> on \<^verbatim>\<open>int\<close> truncate towards zero.\<close>

definition go_div :: "int \<Rightarrow> int \<Rightarrow> int" where
  "go_div a b = sgn a * sgn b * (\<bar>a\<bar> div \<bar>b\<bar>)"

definition go_mod :: "int \<Rightarrow> int \<Rightarrow> int" where
  "go_mod a b = a - b * go_div a b"

section \<open>Hash-trie: slot index of a digest (hashdb.go, \<^verbatim>\<open>hashbin\<close>)\<close>

text \<open>
  \<^verbatim>\<open>k[i]\<close> on a \<^verbatim>\<open>[32]byte\<close>: the digest is a list of bytes, the index is
  checked against its length, and an index outside it panics.
\<close>

definition index_digest :: "bytes \<Rightarrow> int \<Rightarrow> panic + byte" where
  "index_digest k i =
     (if 0 \<le> i \<and> i < int (length k) then Inr (k ! nat i) else Inl IndexOutOfRange)"

text \<open>
  \<^verbatim>\<open>hashbin(k, level)\<close>. The values are Go \<^verbatim>\<open>int\<close>s (64 bits): a byte shifted left by at
  most 5 cannot overflow, so they are modelled in \<^typ>\<open>int\<close>. The shift counts
  \<^verbatim>\<open>uint(2-bitpos)\<close>, \<^verbatim>\<open>uint(bitpos-2)\<close> and \<^verbatim>\<open>uint(8-(6-(8-bitpos)))\<close> are never negative
  in the branch that uses them.
\<close>

definition hashbin :: "bytes \<Rightarrow> int \<Rightarrow> panic + int" where
  "hashbin k level =
     (let x = 0x3F;
          bytepos = go_div (level * 6) 8;
          bitpos = go_mod (level * 6) 8
      in if bitpos \<le> 2 then
           (case index_digest k bytepos of
              Inl e \<Rightarrow> Inl e
            | Inr b \<Rightarrow> Inr (drop_bit (nat (2 - bitpos)) (uint b) AND x))
         else
           (case index_digest k bytepos of
              Inl e \<Rightarrow> Inl e
            | Inr b \<Rightarrow>
                (case index_digest k (bytepos + 1) of
                   Inl e \<Rightarrow> Inl e
                 | Inr b1 \<Rightarrow>
                     Inr ((push_bit (nat (bitpos - 2)) (uint b)
                           + drop_bit (nat (8 - (6 - (8 - bitpos)))) (uint b1)) AND x))))"

text \<open>
  The specification's reading of the slot: bit \<open>i\<close> of the digest, counted from the most
  significant bit of byte 0, and the integer formed by the six bits \<open>[6d, 6d+6)\<close>, most
  significant first.
\<close>

definition digest_bit :: "bytes \<Rightarrow> nat \<Rightarrow> bool" where
  "digest_bit k i = bit (k ! (i div 8)) (7 - i mod 8)"

definition bits_value :: "bool list \<Rightarrow> int" where
  "bits_value bs = foldl (\<lambda>a b. 2 * a + of_bool b) 0 bs"

definition slot_bits :: "bytes \<Rightarrow> nat \<Rightarrow> int" where
  "slot_bits k d = bits_value (map (digest_bit k) [6 * d ..< 6 * d + 6])"

section \<open>B-tree (test/btree/btree.go)\<close>

text \<open>
  In this part a function that can panic in Go (an index or slice bound out of range)
  returns an \<open>option\<close>, and \<open>None\<close> is the panic. For \<open>node_insert\<close>, which loads nodes
  from chunk files as it descends, \<open>None\<close> is also the descent that never ends (chunk
  files that name each other).
\<close>

subsection \<open>Items and nodes\<close>

text \<open>
  \<^verbatim>\<open>DBIndex\<close>, the only implementation of \<^verbatim>\<open>Item\<close>: \<^verbatim>\<open>Less\<close> compares the keys as Go
  strings (bytewise lexicographic order, the order of \<^typ>\<open>string\<close> here).
\<close>

datatype item = DBIndex (ikey: string) (ival: string)

definition Less :: "item \<Rightarrow> item \<Rightarrow> bool" where
  "Less a b \<longleftrightarrow> ikey a < ikey b"

text \<open>
  \<^verbatim>\<open>node\<close>. The \<^verbatim>\<open>cow\<close> pointer is left out: every node of a tree made by \<^verbatim>\<open>Open\<close>
  carries the tree's own context, and the free list stays empty as long as nothing is
  deleted, so \<^verbatim>\<open>newNode\<close> is \<^verbatim>\<open>new(node)\<close>.
\<close>

datatype node = Node (items: "item list") (children: "node list")
  (notloaded: bool) (dirty: bool) (hashid: string)

definition newNode :: node where
  "newNode = Node [] [] False False []"

definition set_items :: "item list \<Rightarrow> node \<Rightarrow> node" where
  "set_items xs n = Node xs (children n) (notloaded n) (dirty n) (hashid n)"

definition set_children :: "node list \<Rightarrow> node \<Rightarrow> node" where
  "set_children cs n = Node (items n) cs (notloaded n) (dirty n) (hashid n)"

definition set_notloaded :: "bool \<Rightarrow> node \<Rightarrow> node" where
  "set_notloaded b n = Node (items n) (children n) b (dirty n) (hashid n)"

definition set_dirty :: "bool \<Rightarrow> node \<Rightarrow> node" where
  "set_dirty b n = Node (items n) (children n) (notloaded n) b (hashid n)"

definition set_hashid :: "string \<Rightarrow> node \<Rightarrow> node" where
  "set_hashid h n = Node (items n) (children n) (notloaded n) (dirty n) h"

subsection \<open>Slices\<close>

text \<open>\<^verbatim>\<open>insertAt\<close>: appends, shifts and writes \<^verbatim>\<open>(*s)[index]\<close>, which panics beyond the end.\<close>

definition insertAt :: "nat \<Rightarrow> 'a \<Rightarrow> 'a list \<Rightarrow> 'a list option" where
  "insertAt index x s =
     (if index \<le> length s then Some (take index s @ [x] @ drop index s) else None)"

text \<open>
  \<^verbatim>\<open>sort.Search(n, f)\<close> of the Go library: binary search with \<^verbatim>\<open>h := (i+j)/2\<close>,
  \<^verbatim>\<open>i = h+1\<close> when \<^verbatim>\<open>!f(h)\<close> and \<^verbatim>\<open>j = h\<close> otherwise.
\<close>

function search_loop :: "(nat \<Rightarrow> bool) \<Rightarrow> nat \<Rightarrow> nat \<Rightarrow> nat" where
  "search_loop f i j =
     (if i < j then
        (let h = (i + j) div 2
         in if \<not> f h then search_loop f (h + 1) j else search_loop f i h)
      else i)"
  by pat_completeness auto
termination
  by (relation "measure (\<lambda>(f, i, j). j - i)") auto

declare search_loop.simps [simp del]

definition sort_Search :: "nat \<Rightarrow> (nat \<Rightarrow> bool) \<Rightarrow> nat" where
  "sort_Search n f = search_loop f 0 n"

text \<open>\<^verbatim>\<open>items.find\<close>: the index where the item belongs, and whether it is there.\<close>

definition find_item :: "item list \<Rightarrow> item \<Rightarrow> nat \<times> bool" where
  "find_item s x =
     (let i = sort_Search (length s) (\<lambda>i. Less x (s ! i))
      in if i > 0 \<and> \<not> Less (s ! (i - 1)) x then (i - 1, True) else (i, False))"

subsection \<open>Splitting\<close>

text \<open>
  \<^verbatim>\<open>node.split(i)\<close>: returns the item at \<open>i\<close>, the shrunk node and the new node with
  everything after \<open>i\<close>. The index is a Go \<^verbatim>\<open>int\<close>.
\<close>

definition split :: "node \<Rightarrow> int \<Rightarrow> (item \<times> node \<times> node) option" where
  "split n i =
     (if 0 \<le> i \<and> i < int (length (items n)) then
        (let j = nat i;
             x = items n ! j;
             next = set_items (drop (j + 1) (items n)) newNode;
             n1 = set_items (take j (items n)) n
         in if length (children n) > 0 then
              (if j + 1 \<le> length (children n) then
                 Some (x, set_children (take (j + 1) (children n)) n1,
                       set_children (drop (j + 1) (children n)) next)
               else None)
            else Some (x, n1, next))
      else None)"

text \<open>
  \<^verbatim>\<open>maybeSplitChild(i, maxItems)\<close>: the node after the call and whether a split occurred.
  The first half stays child \<open>i\<close> (the Go code shrinks it in place).
\<close>

definition maybeSplitChild :: "node \<Rightarrow> nat \<Rightarrow> int \<Rightarrow> (node \<times> bool) option" where
  "maybeSplitChild n i maxItems =
     (if i < length (children n) then
        (if int (length (items (children n ! i))) < maxItems then Some (n, False)
         else
           (case split (children n ! i) (go_div maxItems 2) of
              None \<Rightarrow> None
            | Some (x, first, second) \<Rightarrow>
                (case insertAt i x (items n) of
                   None \<Rightarrow> None
                 | Some its \<Rightarrow>
                     (case insertAt (i + 1) second ((children n)[i := first]) of
                        None \<Rightarrow> None
                      | Some cs \<Rightarrow>
                          Some (set_children cs (set_items its (set_dirty True n)), True)))))
      else None)"

subsection \<open>Chunk files and the registry\<close>

text \<open>
  A chunk file is the list of its lines. \<^verbatim>\<open>SWARMPut\<close> writes \<^verbatim>\<open>C|j|hashid\<close> for child
  \<open>j\<close> and \<^verbatim>\<open>I|j|key|val\<close> for item \<open>j\<close>; \<^verbatim>\<open>SWARMGet\<close> splits each line at \<^verbatim>\<open>|\<close>.
  A line is kept here in its parsed form. The chunk directory maps a hashid to the file
  of that name, the registry directory a table name to the content of its file.
\<close>

datatype line = CLine nat string | ILine nat string string

record world =
  chunks :: "string \<rightharpoonup> line list"
  ens :: "string \<rightharpoonup> string"

text \<open>
  \<^verbatim>\<open>os.Open(CHUNK_DIR/hashid)\<close> and the scan of its lines. With an empty hashid the path
  is the directory itself, which yields no line.
\<close>

definition read_chunk :: "(string \<rightharpoonup> line list) \<Rightarrow> string \<Rightarrow> line list option" where
  "read_chunk fs h = (if h = [] then None else fs h)"

fun load_line :: "node \<Rightarrow> line \<Rightarrow> node" where
  "load_line n (ILine j k v) = set_items (items n @ [DBIndex k v]) n"
| "load_line n (CLine j h) =
     set_children (children n @ [set_notloaded True (set_hashid h newNode)]) n"

text \<open>\<^verbatim>\<open>SWARMGet\<close>: appends what the chunk file holds to the node; \<open>False\<close> when there is no file.\<close>

definition SWARMGet :: "(string \<rightharpoonup> line list) \<Rightarrow> node \<Rightarrow> node \<times> bool" where
  "SWARMGet fs n =
     (case read_chunk fs (hashid n) of
        None \<Rightarrow> (n, False)
      | Some ls \<Rightarrow> (set_notloaded False (foldl load_line n ls), True))"

definition chunk_lines :: "node \<Rightarrow> line list" where
  "chunk_lines n =
     map (\<lambda>(j, c). CLine j (hashid c)) (enumerate 0 (children n))
     @ map (\<lambda>(j, x). ILine j (ikey x) (ival x)) (enumerate 0 (items n))"

text \<open>
  The bytes \<^verbatim>\<open>SWARMPut\<close> feeds to SHA-256: the hashids of the children, then key and value
  of every item.
\<close>

definition hash_input :: "node \<Rightarrow> string" where
  "hash_input n = concat (map hashid (children n)) @ concat (map (\<lambda>x. ikey x @ ival x) (items n))"

text \<open>
  \<^verbatim>\<open>SWARMPut\<close>, with \<open>H\<close> for \<^verbatim>\<open>fmt.Sprintf("%x", sha256(...))\<close>: the node and the chunk
  directory after the call, and the value returned. Only children whose \<^verbatim>\<open>dirty\<close> flag is
  set are visited.
\<close>

fun SWARMPut :: "(string \<Rightarrow> string) \<Rightarrow> node \<Rightarrow> (string \<rightharpoonup> line list)
    \<Rightarrow> node \<times> (string \<rightharpoonup> line list) \<times> bool"
  and SWARMPut_children :: "(string \<Rightarrow> string) \<Rightarrow> node list \<Rightarrow> (string \<rightharpoonup> line list)
    \<Rightarrow> node list \<times> (string \<rightharpoonup> line list)"
where
  "SWARMPut H (Node its cs nl d old_hashid) fs =
     (let (cs1, fs1) = SWARMPut_children H cs fs;
          n1 = Node its cs1 nl d (H (hash_input (Node its cs1 nl d old_hashid)))
      in if hashid n1 = old_hashid \<or> length old_hashid < 1
         then (n1, fs1(hashid n1 \<mapsto> chunk_lines n1), True)
         else (n1, fs1, False))"
| "SWARMPut_children H [] fs = ([], fs)"
| "SWARMPut_children H (c # cs) fs =
     (let (c1, fs1) = (if dirty c then (let (c', fs', r) = SWARMPut H c fs in (c', fs')) else (c, fs));
          (cs1, fs2) = SWARMPut_children H cs fs1
      in (c1 # cs1, fs2))"

subsection \<open>Insertion and lookup\<close>

text \<open>
  \<^verbatim>\<open>node.insert\<close>: the node after the call, the item replaced (if any) and the boolean
  returned. A node marked \<^verbatim>\<open>notloaded\<close> is read from its chunk file first.
\<close>

partial_function (option) node_insert ::
  "(string \<rightharpoonup> line list) \<Rightarrow> item \<Rightarrow> int \<Rightarrow> node \<Rightarrow> (node \<times> item option \<times> bool) option"
where
  "node_insert fs x maxItems n =
     (let n0 = (if notloaded n then set_notloaded False (fst (SWARMGet fs n)) else n);
          i = fst (find_item (items n0) x);
          found = snd (find_item (items n0) x)
      in if found then
           Some (set_items ((items n0)[i := x]) (set_dirty True n0), Some (items n0 ! i), True)
         else if length (children n0) = 0 then
           (case insertAt i x (items n0) of
              None \<Rightarrow> None
            | Some its \<Rightarrow> Some (set_items its (set_dirty True n0), None, True))
         else
           (case maybeSplitChild n0 i maxItems of
              None \<Rightarrow> None
            | Some (n1, did_split) \<Rightarrow>
                (if did_split \<and> \<not> Less x (items n1 ! i) \<and> \<not> Less (items n1 ! i) x then
                   Some (set_items ((items n1)[i := x]) n1, Some (items n1 ! i), True)
                 else
                   (let i1 = (if did_split \<and> \<not> Less x (items n1 ! i) then i + 1 else i)
                    in if i1 < length (children n1) then
                         do {
                           (c, out, b) \<leftarrow> node_insert fs x maxItems (children n1 ! i1);
                           Some (set_dirty b (set_children ((children n1)[i1 := c]) n1), out, b)
                         }
                       else None))))"

declare node_insert.simps [code]

lemma child_size: "i < length (children n) \<Longrightarrow> size (children n ! i) < size n"
proof (cases n)
  case (Node its cs nl d h)
  assume "i < length (children n)"
  then have "cs ! i \<in> set cs" using Node by simp
  then have "size (cs ! i) \<le> size_list size cs"
    by (simp add: size_list_estimation')
  then show ?thesis using Node by simp
qed

text \<open>\<^verbatim>\<open>node.get\<close>: no node is loaded here; \<open>Some None\<close> is the \<^verbatim>\<open>nil\<close> item.\<close>

function get :: "node \<Rightarrow> item \<Rightarrow> item option option" where
  "get n key =
     (let (i, found) = find_item (items n) key
      in if found then Some (Some (items n ! i))
         else if length (children n) > 0 then
           (if i < length (children n) then get (children n ! i) key else None)
         else Some None)"
  by pat_completeness auto

termination
  by (relation "measure (\<lambda>(n, k). size n)") (auto simp: child_size)

declare get.simps [simp del]

subsection \<open>The tree\<close>

record BTree =
  degree :: int
  length_t :: int
  root :: "node option"

definition maxItems :: "BTree \<Rightarrow> int" where
  "maxItems t = degree t * 2 - 1"

definition minItems :: "BTree \<Rightarrow> int" where
  "minItems t = degree t - 1"

text \<open>\<^verbatim>\<open>getTableENS\<close>: the first line of the registry file longer than 32 characters.\<close>

definition getTableENS :: "(string \<rightharpoonup> string) \<Rightarrow> string \<Rightarrow> string option" where
  "getTableENS e tableName =
     (case e tableName of
        None \<Rightarrow> None
      | Some l \<Rightarrow> (if length l > 32 then Some l else None))"

definition putTableENS :: "string \<Rightarrow> string \<Rightarrow> (string \<rightharpoonup> string) \<Rightarrow> (string \<rightharpoonup> string)" where
  "putTableENS tableName h e = e(tableName \<mapsto> h)"

text \<open>
  \<^verbatim>\<open>Open\<close>: degree 4; the root is read from the chunk the registry names and then marked
  \<^verbatim>\<open>notloaded\<close> again.
\<close>

definition Open :: "world \<Rightarrow> string \<Rightarrow> BTree" where
  "Open w tableName =
     (let r = (case getTableENS (ens w) tableName of
                 None \<Rightarrow> newNode
               | Some h \<Rightarrow> fst (SWARMGet (chunks w) (set_hashid h newNode)))
      in \<lparr>degree = 4, length_t = 0, root = Some (set_notloaded True r)\<rparr>)"

text \<open>
  \<^verbatim>\<open>Flush\<close>: the registry is written only when \<^verbatim>\<open>SWARMPut\<close> of the root returns true.
  A tree without a root dereferences \<^verbatim>\<open>nil\<close>.
\<close>

definition Flush :: "(string \<Rightarrow> string) \<Rightarrow> string \<Rightarrow> BTree \<Rightarrow> world \<Rightarrow> (BTree \<times> world \<times> bool) option" where
  "Flush H tableName t w =
     (case root t of
        None \<Rightarrow> None
      | Some r \<Rightarrow>
          (let (r1, fs1, changed) = SWARMPut H r (chunks w)
           in if changed then
                Some (t\<lparr>root := Some r1\<rparr>,
                      w\<lparr>chunks := fs1, ens := putTableENS tableName (hashid r1) (ens w)\<rparr>, True)
              else Some (t\<lparr>root := Some r1\<rparr>, w\<lparr>chunks := fs1\<rparr>, False)))"

text \<open>
  \<^verbatim>\<open>ReplaceOrInsert\<close>: the tree after the call and the item replaced. The item of the model
  is never \<^verbatim>\<open>nil\<close>. The chunk directory is only read.
\<close>

definition ReplaceOrInsert :: "(string \<rightharpoonup> line list) \<Rightarrow> item \<Rightarrow> BTree \<Rightarrow> (BTree \<times> item option) option" where
  "ReplaceOrInsert fs x t =
     (case root t of
        None \<Rightarrow>
          Some (t\<lparr>root := Some (set_dirty True (set_items [x] newNode)), length_t := length_t t + 1\<rparr>,
                None)
      | Some r \<Rightarrow>
          do {
            r1 \<leftarrow> (if int (length (items r)) \<ge> maxItems t then
                     do {
                       (item2, oldroot, second) \<leftarrow> split r (go_div (maxItems t) 2);
                       Some (set_children [oldroot, second] (set_items [item2] newNode))
                     }
                   else Some r);
            (r2, out, d) \<leftarrow> node_insert fs x (maxItems t) r1;
            Some (t\<lparr>root := Some (set_dirty d r2),
                    length_t := (if out = None then length_t t + 1 else length_t t)\<rparr>, out)
          })"

definition Get :: "BTree \<Rightarrow> item \<Rightarrow> item option option" where
  "Get t key = (case root t of None \<Rightarrow> Some None | Some r \<Rightarrow> get r key)"

text \<open>A sequence of \<^verbatim>\<open>ReplaceOrInsert\<close> calls, as the loop of \<^verbatim>\<open>main\<close> makes them.\<close>

fun ReplaceOrInsert_all :: "(string \<rightharpoonup> line list) \<Rightarrow> item list \<Rightarrow> BTree \<Rightarrow> BTree option" where
  "ReplaceOrInsert_all fs [] t = Some t"
| "ReplaceOrInsert_all fs (x # xs) t =
     (case ReplaceOrInsert fs x t of
        None \<Rightarrow> None
      | Some (t1, out) \<Rightarrow> ReplaceOrInsert_all fs xs t1)"

text \<open>Empty chunk and registry directories.\<close>

definition empty_world :: world where
  "empty_world = \<lparr>chunks = Map.empty, ens = Map.empty\<rparr>"

text \<open>
  SHA-256 in hexadecimal at the five inputs the examples below hash (the values of the
  real function there); no other input occurs in them.
\<close>

definition sha256_hex_sample :: "string \<Rightarrow> string" where
  "sha256_hex_sample s =
     (if s = ''1v2v3v'' then
        ''1b2aaea15e37ead9baba9a76b535664a68d062413b098e9f707fef79c899ba13''
      else if s = ''5v6v7v8v'' then
        ''c062e5ba375e252e198377a9043bdfaba58f82bd68568a80f71890e602b4a5d2''
      else if s = ''1b2aaea15e37ead9baba9a76b535664a68d062413b098e9f707fef79c899ba13c062e5ba375e252e198377a9043bdfaba58f82bd68568a80f71890e602b4a5d24v'' then
        ''122788eb73abaa52e01088d7f102a4797857ddcb7f0f6699cdc3244650ef7ed3''
      else if s = ''av'' then
        ''27a26bca625b223971909dd88fc93faeb050dc5b34d91c0871661740dcfb9d18''
      else if s = ''avbv'' then
        ''17bd3b2e799ca13fb4275e68b316ccccea52f281fd277e065291ce0e91352419''
      else [])"

subsection \<open>Iteration\<close>

datatype direction = descend | ascend

text \<open>
  \<^verbatim>\<open>node.iterate\<close>. The visitor is a Go closure; here it takes the state it works on and
  returns it with its boolean. \<^verbatim>\<open>start\<close> and \<^verbatim>\<open>stop\<close> are \<open>None\<close> for \<^verbatim>\<open>nil\<close>. The result is
  the pair of booleans returned and the visitor's state, and \<open>None\<close> for an index beyond the
  children. \<open>ascend_loop\<close> is the ascending loop from index \<open>i\<close> with what follows it;
  \<open>descend_loop\<close> is the descending loop with \<open>j\<close> one above the index.
\<close>

function iterate :: "direction \<Rightarrow> item option \<Rightarrow> item option \<Rightarrow> bool \<Rightarrow> ('s \<Rightarrow> item \<Rightarrow> bool \<times> 's)
      \<Rightarrow> node \<Rightarrow> bool \<Rightarrow> 's \<Rightarrow> (bool \<times> bool \<times> 's) option"
  and ascend_loop :: "item option \<Rightarrow> item option \<Rightarrow> bool \<Rightarrow> ('s \<Rightarrow> item \<Rightarrow> bool \<times> 's)
      \<Rightarrow> node \<Rightarrow> nat \<Rightarrow> bool \<Rightarrow> 's \<Rightarrow> (bool \<times> bool \<times> 's) option"
  and descend_loop :: "item option \<Rightarrow> item option \<Rightarrow> bool \<Rightarrow> ('s \<Rightarrow> item \<Rightarrow> bool \<times> 's)
      \<Rightarrow> node \<Rightarrow> nat \<Rightarrow> bool \<Rightarrow> 's \<Rightarrow> (bool \<times> bool \<times> 's) option"
where
  "iterate dir start stop includeStart iter n hit s =
     (case dir of
        ascend \<Rightarrow> ascend_loop start stop includeStart iter n 0 hit s
      | descend \<Rightarrow> descend_loop start stop includeStart iter n (length (items n)) hit s)"
| "ascend_loop start stop includeStart iter n i hit s =
     (if i < length (items n) then
        (if start \<noteq> None \<and> Less (items n ! i) (the start) then
           ascend_loop start stop includeStart iter n (i + 1) hit s
         else
           (case (if length (children n) > 0 then
                    (if i < length (children n) then
                       iterate ascend start stop includeStart iter (children n ! i) hit s
                     else None)
                  else Some (hit, True, s)) of
              None \<Rightarrow> None
            | Some (hit1, ok, s1) \<Rightarrow>
                if \<not> ok then Some (hit1, False, s1)
                else if \<not> includeStart \<and> \<not> hit1 \<and> start \<noteq> None \<and> \<not> Less (the start) (items n ! i) then
                  ascend_loop start stop includeStart iter n (i + 1) True s1
                else if stop \<noteq> None \<and> \<not> Less (items n ! i) (the stop) then Some (True, False, s1)
                else
                  (case iter s1 (items n ! i) of
                     (b, s2) \<Rightarrow>
                       if \<not> b then Some (True, False, s2)
                       else ascend_loop start stop includeStart iter n (i + 1) True s2)))
      else if length (children n) > 0 then
        iterate ascend start stop includeStart iter (children n ! (length (children n) - 1)) hit s
      else Some (hit, True, s))"
| "descend_loop start stop includeStart iter n j hit s =
     (if j > 0 then
        (let i = j - 1
         in if i < length (items n) then
              (if start \<noteq> None \<and> \<not> Less (items n ! i) (the start) \<and>
                  (\<not> includeStart \<or> hit \<or> Less (the start) (items n ! i)) then
                 descend_loop start stop includeStart iter n i hit s
               else
                 (case (if length (children n) > 0 then
                          (if i + 1 < length (children n) then
                             iterate descend start stop includeStart iter (children n ! (i + 1)) hit s
                           else None)
                        else Some (hit, True, s)) of
                    None \<Rightarrow> None
                  | Some (hit1, ok, s1) \<Rightarrow>
                      if \<not> ok then Some (hit1, False, s1)
                      else if stop \<noteq> None \<and> \<not> Less (the stop) (items n ! i) then Some (hit1, False, s1)
                      else
                        (case iter s1 (items n ! i) of
                           (b, s2) \<Rightarrow>
                             if \<not> b then Some (True, False, s2)
                             else descend_loop start stop includeStart iter n i True s2)))
            else None)
      else if length (children n) > 0 then
        iterate descend start stop includeStart iter (children n ! 0) hit s
      else Some (hit, True, s))"
  by pat_completeness auto

termination
  apply (relation "inv_image (less_than <*lex*> less_than)
     (\<lambda>x. case x of
        Inl (dir, start, stop, incl, iter, n, hit, s) \<Rightarrow> (size n, length (items n) + 2)
      | Inr (Inl (start, stop, incl, iter, n, i, hit, s)) \<Rightarrow> (size n, length (items n) + 1 - i)
      | Inr (Inr (start, stop, incl, iter, n, j, hit, s)) \<Rightarrow> (size n, j))")
  apply (auto simp: child_size)
  done

declare iterate.simps [simp del] ascend_loop.simps [simp del] descend_loop.simps [simp del]

text \<open>\<^verbatim>\<open>AscendRange\<close> and \<^verbatim>\<open>Ascend\<close>: the visitor's state after the call.\<close>

definition AscendRange :: "BTree \<Rightarrow> item option \<Rightarrow> item option \<Rightarrow> ('s \<Rightarrow> item \<Rightarrow> bool \<times> 's) \<Rightarrow> 's \<Rightarrow> 's option" where
  "AscendRange t ge lt iterator s =
     (case root t of
        None \<Rightarrow> Some s
      | Some r \<Rightarrow>
          map_option (\<lambda>(hit, ok, s1). s1)
            (iterate ascend ge lt True iterator r False s))"

definition Ascend :: "BTree \<Rightarrow> ('s \<Rightarrow> item \<Rightarrow> bool \<times> 's) \<Rightarrow> 's \<Rightarrow> 's option" where
  "Ascend t iterator s =
     (case root t of
        None \<Rightarrow> Some s
      | Some r \<Rightarrow>
          map_option (\<lambda>(hit, ok, s1). s1) (iterate ascend None None False iterator r False s))"

text \<open>\<^verbatim>\<open>fmt.Sprintf("%06x", i)\<close> for \<open>i \<ge> 0\<close>: the hexadecimal digits, padded with zeros to six.\<close>

definition hexdigit :: "nat \<Rightarrow> char" where
  "hexdigit d = ''0123456789abcdef'' ! d"

function hex :: "nat \<Rightarrow> string" where
  "hex n = (if n < 16 then [hexdigit n] else hex (n div 16) @ [hexdigit (n mod 16)])"
  by pat_completeness auto

termination
  by (relation "measure id") auto

declare hex.simps [simp del]

definition Sprintf_06x :: "nat \<Rightarrow> string" where
  "Sprintf_06x i = replicate (6 - length (hex i)) CHR ''0'' @ hex i"

text \<open>The items \<^verbatim>\<open>main\<close> inserts.\<close>

definition main_item :: "nat \<Rightarrow> item" where
  "main_item i = DBIndex (Sprintf_06x i) ''whateverwewant''"

subsection \<open>What a scan is to do\<close>

text \<open>
  The items of a tree in order: the children's items with the node's items between them,
  the node's items alone in a leaf.
\<close>

fun weave :: "'a list list \<Rightarrow> 'a list \<Rightarrow> 'a list" where
  "weave (c # cs) (x # xs) = c @ x # weave cs xs"
| "weave cs [] = concat cs"
| "weave [] xs = xs"

fun inorder :: "node \<Rightarrow> item list" where
  "inorder (Node its cs nl d h) = weave (map inorder cs) its"

text \<open>A node has no children or one more than items, and so all the way down.\<close>

fun shaped :: "node \<Rightarrow> bool" where
  "shaped (Node its cs nl d h) \<longleftrightarrow>
     (cs = [] \<or> length cs = length its + 1) \<and> list_all shaped cs"

text \<open>
  No node waits for a chunk file that exists: a node marked \<^verbatim>\<open>notloaded\<close> has the empty
  hashid, as the root of a new table has.
\<close>

fun loaded :: "node \<Rightarrow> bool" where
  "loaded (Node its cs nl d h) \<longleftrightarrow> (nl \<longrightarrow> h = []) \<and> list_all loaded cs"

text \<open>Calling the visitor on the items of a list in turn, until it returns false.\<close>

fun visit :: "('s \<Rightarrow> item \<Rightarrow> bool \<times> 's) \<Rightarrow> item list \<Rightarrow> 's \<Rightarrow> 's" where
  "visit iter [] s = s"
| "visit iter (x # xs) s = (case iter s x of (b, s1) \<Rightarrow> if b then visit iter xs s1 else s1)"

text \<open>The visitor that records the items it is given, and the one that stops at a key.\<close>

definition record_all :: "item list \<Rightarrow> item \<Rightarrow> bool \<times> item list" where
  "record_all tr x = (True, tr @ [x])"

definition record_until :: "string \<Rightarrow> item list \<Rightarrow> item \<Rightarrow> bool \<times> item list" where
  "record_until k tr x = (ikey x \<noteq> k, tr @ [x])"

text \<open>
  What the ascending iteration does on the list of the items in order: items below the
  start are passed over, the scan ends at the first item that is not below the stop, and
  at the first item the visitor refuses. The booleans are those of \<^verbatim>\<open>iterate\<close>.
\<close>

fun scan :: "(item \<Rightarrow> bool) \<Rightarrow> (item \<Rightarrow> bool) \<Rightarrow> ('s \<Rightarrow> item \<Rightarrow> bool \<times> 's) \<Rightarrow> item list \<Rightarrow> 's
    \<Rightarrow> bool \<times> 's" where
  "scan P Q iter [] s = (True, s)"
| "scan P Q iter (x # xs) s =
     (if \<not> P x then scan P Q iter xs s
      else if \<not> Q x then (False, s)
      else (case iter s x of (b, s1) \<Rightarrow> if b then scan P Q iter xs s1 else (False, s1)))"


text \<open>Putting an item where it belongs in a sorted list, in place of the item with its key.\<close>

fun ins :: "item \<Rightarrow> item list \<Rightarrow> item list" where
  "ins x [] = [x]"
| "ins x (y # ys) = (if Less x y then x # y # ys else if Less y x then y # ins x ys else x # ys)"


text \<open>The number of levels of a tree.\<close>

fun height :: "node \<Rightarrow> nat" where
  "height (Node its cs nl d h) = Suc (Max (insert 0 (height ` set cs)))"


text \<open>The last \<open>k\<close> hexadecimal digits of a number.\<close>

fun digits :: "nat \<Rightarrow> nat \<Rightarrow> string" where
  "digits 0 n = []"
| "digits (Suc k) n = digits k (n div 16) @ [hexdigit (n mod 16)]"


text \<open>A tree of three items in two levels, for the examples.\<close>

definition tree_sample :: BTree where
  "tree_sample =
     \<lparr>degree = 4, length_t = 3,
      root = Some (Node [DBIndex ''2'' ''v'']
                     [Node [DBIndex ''1'' ''v''] [] False False [],
                      Node [DBIndex ''3'' ''v''] [] False False []] False False [])\<rparr>"


section \<open>Hash-trie (hashdb.go)\<close>

text \<open>
  As for the B-tree, \<open>None\<close> is a Go panic (or, for the operations that load nodes from
  the chunk store as they descend, a descent that never ends).
\<close>

subsection \<open>Values, nodes and chunks\<close>

text \<open>
  \<^verbatim>\<open>Val\<close> is \<^verbatim>\<open>interface{}\<close>; the values this code puts into it are \<^verbatim>\<open>nil\<close>, a byte slice
  and the error \<^verbatim>\<open>Node.Get\<close> returns for another key.
\<close>

datatype val = VNil | VBytes bytes | VErr

text \<open>
  \<^verbatim>\<open>Node\<close>. The fields \<^verbatim>\<open>Version\<close>, \<^verbatim>\<open>NodeKey\<close> and \<^verbatim>\<open>Stored\<close> are written by \<^verbatim>\<open>Add\<close> and
  \<^verbatim>\<open>add\<close> but read by none of the operations modelled here, and are left out. A \<^verbatim>\<open>nil\<close>
  slice is the empty list; \<^verbatim>\<open>Bin\<close> is \<^verbatim>\<open>nil\<close> or has \<^verbatim>\<open>binnum = 64\<close> slots.
\<close>

datatype hnode = HNode (Key: bytes) (Value: val) (Next: bool) (Bin: "hnode option list")
  (Level: int) (Root: bool) (NodeHash: bytes) (Loaded: bool)

definition set_Key :: "bytes \<Rightarrow> hnode \<Rightarrow> hnode" where
  "set_Key x n = HNode x (Value n) (Next n) (Bin n) (Level n) (Root n) (NodeHash n) (Loaded n)"

definition set_Value :: "val \<Rightarrow> hnode \<Rightarrow> hnode" where
  "set_Value x n = HNode (Key n) x (Next n) (Bin n) (Level n) (Root n) (NodeHash n) (Loaded n)"

definition set_Next :: "bool \<Rightarrow> hnode \<Rightarrow> hnode" where
  "set_Next x n = HNode (Key n) (Value n) x (Bin n) (Level n) (Root n) (NodeHash n) (Loaded n)"

definition set_Bin :: "hnode option list \<Rightarrow> hnode \<Rightarrow> hnode" where
  "set_Bin x n = HNode (Key n) (Value n) (Next n) x (Level n) (Root n) (NodeHash n) (Loaded n)"

definition set_Level :: "int \<Rightarrow> hnode \<Rightarrow> hnode" where
  "set_Level x n = HNode (Key n) (Value n) (Next n) (Bin n) x (Root n) (NodeHash n) (Loaded n)"

definition set_Root :: "bool \<Rightarrow> hnode \<Rightarrow> hnode" where
  "set_Root x n = HNode (Key n) (Value n) (Next n) (Bin n) (Level n) x (NodeHash n) (Loaded n)"

definition set_NodeHash :: "bytes \<Rightarrow> hnode \<Rightarrow> hnode" where
  "set_NodeHash x n = HNode (Key n) (Value n) (Next n) (Bin n) (Level n) (Root n) x (Loaded n)"

definition set_Loaded :: "bool \<Rightarrow> hnode \<Rightarrow> hnode" where
  "set_Loaded x n = HNode (Key n) (Value n) (Next n) (Bin n) (Level n) (Root n) (NodeHash n) x"

definition binnum :: nat where
  "binnum = 64"

definition NewNode :: "bytes \<Rightarrow> val \<Rightarrow> hnode" where
  "NewNode k v = HNode k v False (replicate binnum None) 0 False [] False"

text \<open>
  Modelled from the spec: the chunk store (\<^verbatim>\<open>StoreDBChunk\<close>, \<^verbatim>\<open>RetrieveDBChunk\<close> of the
  \<^verbatim>\<open>SwarmDB\<close> value; its implementation is not among the sources). A chunk is stored under
  the digest \<open>H\<close> of its bytes; retrieving an address that holds nothing is the error
  \<^verbatim>\<open>notFound\<close>. \<^verbatim>\<open>load\<close> reads the first eight bytes of the buffer before it looks at the
  error, so the buffer that comes with the error is taken to be a zero-filled chunk.
\<close>

type_synonym chunkstore = "bytes \<rightharpoonup> bytes"

definition StoreDBChunk :: "(bytes \<Rightarrow> bytes) \<Rightarrow> bytes \<Rightarrow> chunkstore \<Rightarrow> bytes \<times> chunkstore" where
  "StoreDBChunk H c st = (H c, st(H c \<mapsto> c))"

definition RetrieveDBChunk :: "chunkstore \<Rightarrow> bytes \<Rightarrow> bytes \<times> bool" where
  "RetrieveDBChunk st key =
     (case st key of Some c \<Rightarrow> (c, False) | None \<Rightarrow> (replicate 4096 0, True))"

text \<open>
  \<^verbatim>\<open>keyhash\<close> is \<^verbatim>\<open>sha3.Sum256\<close>; the operations below take it as the parameter \<open>kh\<close>.
  The slot of a key at a level, \<open>None\<close> when \<^const>\<open>hashbin\<close> panics.
\<close>

definition slot :: "bytes \<Rightarrow> int \<Rightarrow> nat option" where
  "slot d level = (case hashbin d level of Inl e \<Rightarrow> None | Inr b \<Rightarrow> Some (nat b))"

text \<open>\<^verbatim>\<open>copy(dst[off:], src)\<close> for \<open>off \<le> length dst\<close>: as many bytes as fit.\<close>

definition copy_at :: "bytes \<Rightarrow> nat \<Rightarrow> bytes \<Rightarrow> bytes" where
  "copy_at dst off src = take off dst @ take (length dst - off) src @ drop (off + length src) dst"

definition convertToByte :: "val \<Rightarrow> bytes option" where
  "convertToByte a = (case a of VBytes va \<Rightarrow> Some va | _ \<Rightarrow> None)"

text \<open>The leaf chunk \<^verbatim>\<open>add\<close> builds: the value from offset 64, the key from offset 96.\<close>

definition leaf_chunk :: "bytes \<Rightarrow> val \<Rightarrow> bytes" where
  "leaf_chunk k v =
     copy_at (copy_at (replicate 4096 0) 64 (case convertToByte v of None \<Rightarrow> [] | Some b \<Rightarrow> b)) 96 k"

text \<open>\<^verbatim>\<open>binary.LittleEndian\<close>: eight bytes, least significant first.\<close>

definition PutUint64 :: "64 word \<Rightarrow> bytes" where
  "PutUint64 w = map (\<lambda>i. ucast (drop_bit (8 * i) w)) [0 ..< 8]"

definition Uint64 :: "bytes \<Rightarrow> nat" where
  "Uint64 bs = foldr (\<lambda>b a. unat b + 256 * a) bs 0"

text \<open>The chunk \<^verbatim>\<open>storeBinToNetwork\<close> builds, \<open>66 * 64\<close> bytes.\<close>

definition bins_chunk :: "hnode \<Rightarrow> bytes" where
  "bins_chunk n =
     (let storedata = replicate (66 * 64) 0;
          s1 = copy_at storedata 0 (PutUint64 (if Next n \<or> Root n then 1 else 0));
          s2 = copy_at s1 9 (PutUint64 (word_of_int (Level n)))
      in fold (\<lambda>(i, b) buf. case b of None \<Rightarrow> buf | Some c \<Rightarrow> copy_at buf (64 + i * 32) (NodeHash c))
           (enumerate 0 (Bin n)) s2)"

definition storeBinToNetwork :: "(bytes \<Rightarrow> bytes) \<Rightarrow> hnode \<Rightarrow> chunkstore \<Rightarrow> bytes \<times> chunkstore" where
  "storeBinToNetwork H n st = StoreDBChunk H (bins_chunk n) st"

text \<open>
  \<^verbatim>\<open>Node.load\<close>. A buffer too short for a slice expression and a \<^verbatim>\<open>Bin\<close> with fewer than
  64 slots panic.
\<close>

definition load_bins :: "bytes \<Rightarrow> hnode option list" where
  "load_bins buf =
     map (\<lambda>i. let h = take 32 (drop (64 + 32 * i) buf)
              in if h = replicate 32 0 then None else Some (set_NodeHash h (NewNode [] VNil)))
       [0 ..< 64]"

definition load :: "chunkstore \<Rightarrow> hnode \<Rightarrow> hnode option" where
  "load st n =
     (let (buf, err) = RetrieveDBChunk st (NodeHash n)
      in if length buf < 8 then None
         else if err then Some (set_Next False (set_Loaded False n))
         else if Uint64 (take 8 buf) = 1 then
           (if length buf < 64 + 32 * 64 \<or> length (Bin n) < 64 then None
            else Some (set_Loaded True (set_Next True
                   (set_Bin (load_bins buf @ drop 64 (Bin n)) n))))
         else
           (let pos0 = 96 + length (takeWhile (\<lambda>b. b \<noteq> 0) (drop 96 buf))
            in if length buf < 96 \<or> pos0 = 96 \<and> length buf < 128 then None
               else
                 (let pos = (if pos0 = 96 \<and> take 32 (drop 96 buf) \<noteq> replicate 32 0
                             then 128 else pos0)
                  in Some (set_Loaded True (set_Next False
                       (set_Value (VBytes (take 32 (drop 64 buf)))
                          (set_Key (take (pos - 96) (drop 96 buf)) n)))))))"

text \<open>\<^verbatim>\<open>compareVal(a, b) == 0\<close> on two byte slices: equal after \<^verbatim>\<open>bytes.Trim(_, "\x00")\<close>.\<close>

definition Trim0 :: "bytes \<Rightarrow> bytes" where
  "Trim0 b = rev (dropWhile (\<lambda>x. x = 0) (rev (dropWhile (\<lambda>x. x = 0) b)))"

definition compareVal :: "bytes \<Rightarrow> bytes \<Rightarrow> bool" where
  "compareVal a b \<longleftrightarrow> Trim0 a = Trim0 b"

subsection \<open>Lookup\<close>

text \<open>
  \<^verbatim>\<open>Node.Get\<close>: the value returned and the node after the call (nodes met on the way are
  loaded in place).
\<close>

partial_function (option) node_Get ::
  "(bytes \<Rightarrow> bytes) \<Rightarrow> chunkstore \<Rightarrow> bytes \<Rightarrow> hnode \<Rightarrow> (val \<times> hnode) option"
where
  "node_Get kh st k self =
     do {
       bin \<leftarrow> slot (kh k) (Level self);
       self1 \<leftarrow> (if \<not> Loaded self then map_option (set_Loaded True) (load st self) else Some self);
       if bin < length (Bin self1) then
         (case Bin self1 ! bin of
            None \<Rightarrow> Some (VNil, self1)
          | Some c \<Rightarrow>
              do {
                c1 \<leftarrow> (if \<not> Loaded c then load st c else Some c);
                if Next c1 then
                  do {
                    (v, c2) \<leftarrow> node_Get kh st k c1;
                    Some (v, set_Bin ((Bin self1)[bin := Some c2]) self1)
                  }
                else
                  Some (if compareVal k (Key c1) then Value c1 else VErr,
                        set_Bin ((Bin self1)[bin := Some c1]) self1)
              })
       else None
     }"

declare node_Get.simps [code]

subsection \<open>Insertion\<close>

text \<open>
  \<^verbatim>\<open>newRootNode(k, val, l, version, NodeKey)\<close>: an interior node with one child for \<open>k\<close>.
  The child's \<^verbatim>\<open>Bin\<close> is \<^verbatim>\<open>nil\<close>.
\<close>

definition newRootNode :: "(bytes \<Rightarrow> bytes) \<Rightarrow> bytes \<Rightarrow> val \<Rightarrow> int \<Rightarrow> hnode option" where
  "newRootNode kh k v l =
     do {
       bnum \<leftarrow> slot (kh k) l;
       Some (HNode [] VNil True
               ((replicate binnum None)[bnum := Some (HNode k v False [] (l + 1) False [] False)])
               l True [] False)
     }"

text \<open>
  \<^verbatim>\<open>Node.add\<close> returns a pointer, which is either its receiver or \<^verbatim>\<open>addnode\<close>; both are
  changed in place. The model returns the receiver and \<^verbatim>\<open>addnode\<close> after the call, which of
  the two the returned pointer is, and the chunk store.
\<close>

datatype returned = RetSelf | RetAddnode

definition finish_add :: "(bytes \<Rightarrow> bytes) \<Rightarrow> hnode \<Rightarrow> hnode \<Rightarrow> chunkstore
    \<Rightarrow> (hnode \<times> hnode \<times> returned \<times> chunkstore) option" where
  "finish_add H self addnode st =
     (let (h, st1) = storeBinToNetwork H self st
      in Some (set_Loaded True (set_NodeHash h self), addnode, RetSelf, st1))"

partial_function (option) add ::
  "(bytes \<Rightarrow> bytes) \<Rightarrow> (bytes \<Rightarrow> bytes) \<Rightarrow> hnode \<Rightarrow> hnode \<Rightarrow> chunkstore
    \<Rightarrow> (hnode \<times> hnode \<times> returned \<times> chunkstore) option"
where
  "add kh H self addnode st =
     do {
       bin \<leftarrow> slot (kh (Key addnode)) (Level self);
       self1 \<leftarrow> (if \<not> Loaded self then map_option (set_Loaded True) (load st self) else Some self);
       if Next self1 \<or> Root self1 then
         (if bin < length (Bin self1) then
            (case Bin self1 ! bin of
               Some c \<Rightarrow>
                 do {
                   c1 \<leftarrow> (if \<not> Loaded c then load st c else Some c);
                   (c2, addnode2, r, st2) \<leftarrow> add kh H c1 addnode st;
                   finish_add H
                     (set_Bin ((Bin self1)[bin := Some (case r of RetSelf \<Rightarrow> c2 | RetAddnode \<Rightarrow> addnode2)]) self1)
                     addnode2 st2
                 }
             | None \<Rightarrow>
                 (let addnode1 = set_Level (Level self1 + 1) addnode;
                      dhash = fst (StoreDBChunk H (leaf_chunk (Key addnode1) (Value addnode1)) st);
                      st1 = snd (StoreDBChunk H (leaf_chunk (Key addnode1) (Value addnode1)) st);
                      addnode2 = set_NodeHash dhash addnode1
                  in finish_add H (set_Bin ((Bin self1)[bin := Some addnode2]) self1) addnode2 st1))
          else None)
       else if Key self1 = Key addnode then Some (self1, addnode, RetSelf, st)
       else if length (Key self1) = 0 then
         (let dhash = fst (StoreDBChunk H (leaf_chunk (Key addnode) (Value addnode)) st);
              st1 = snd (StoreDBChunk H (leaf_chunk (Key addnode) (Value addnode)) st)
          in Some (self1, set_Loaded True (set_Next False (set_NodeHash dhash addnode)),
                   RetAddnode, st1))
       else
         do {
           n \<leftarrow> newRootNode kh (Key self1) (Value self1) (Level self1);
           (n1, addnode2, r1, st1) \<leftarrow>
              add kh H (set_Level (Level self1) (set_Root (Root self1) (set_Next True n)))
                (set_Level (Level self1 + 1) addnode) st;
           (n2, self3, r2, st2) \<leftarrow> add kh H n1 (set_Level (Level self1 + 1) self1) st1;
           finish_add H self3 addnode2 (snd (storeBinToNetwork H self3 st2))
         }
     }"

declare add.simps [code]

subsection \<open>Deletion\<close>

text \<open>The slots of a \<^verbatim>\<open>Bin\<close> that are not \<^verbatim>\<open>nil\<close>: \<^verbatim>\<open>bincount\<close> is their number, \<^verbatim>\<open>pos\<close> the last.\<close>

definition occupied :: "hnode option list \<Rightarrow> nat list" where
  "occupied bs = filter (\<lambda>i. bs ! i \<noteq> None) [0 ..< length bs]"

lemma Bin_child_size: "i < length (Bin n) \<Longrightarrow> Bin n ! i = Some c \<Longrightarrow> size c < size n"
proof (cases n)
  case (HNode k v nx bs l r h ld)
  assume "i < length (Bin n)" and "Bin n ! i = Some c"
  then have "Some c \<in> set bs" using HNode by (metis hnode.sel(4) nth_mem)
  then have "size_option size (Some c) \<le> size_list (size_option size) bs"
    by (simp add: size_list_estimation')
  then show ?thesis using HNode by simp
qed

text \<open>
  \<^verbatim>\<open>Node.Delete\<close>: the receiver after the call and the node the returned pointer names
  (\<open>None\<close> for \<^verbatim>\<open>nil\<close>). Nothing is loaded, and the key of the leaf is not compared.
\<close>

function node_Delete :: "(bytes \<Rightarrow> bytes) \<Rightarrow> bytes \<Rightarrow> hnode \<Rightarrow> (hnode \<times> hnode option) option" where
  "node_Delete kh k self =
     (case slot (kh k) (Level self) of
        None \<Rightarrow> None
      | Some bin \<Rightarrow>
          (if bin < length (Bin self) then
             (case Bin self ! bin of
                None \<Rightarrow> Some (self, None)
              | Some c \<Rightarrow>
                  (if Next c then
                     (case node_Delete kh k c of
                        None \<Rightarrow> None
                      | Some (c1, ret) \<Rightarrow>
                          (let self1 = set_Bin ((Bin self)[bin := ret]) self;
                               occ = occupied (Bin self1)
                           in if length occ = 1 \<and> \<not> Next (the (Bin self1 ! last occ))
                              then Some (self1, Bin self1 ! last occ)
                              else Some (self1, Some self1)))
                   else
                     (let self1 = set_Bin ((Bin self)[bin := None]) self;
                          occ = occupied (Bin self1)
                      in if length occ = 1 then Some (self1, Bin self1 ! last occ)
                         else Some (self1, Some self1))))
           else None))"
  by pat_completeness auto
termination
  by (relation "measure (\<lambda>(kh, k, n). size n)") (auto simp: Bin_child_size)

declare node_Delete.simps [simp del]

subsection \<open>The index\<close>

record HashDB =
  rootnode :: hnode
  swarmdb :: chunkstore
  buffered :: bool

text \<open>\<^verbatim>\<open>NewHashDB(nil, swarmdb, columntype)\<close>: the empty trie over a chunk store.\<close>

definition NewHashDB :: "chunkstore \<Rightarrow> HashDB" where
  "NewHashDB st = \<lparr>rootnode = set_Root True (NewNode [] VNil), swarmdb = st, buffered = False\<rparr>"

text \<open>\<^verbatim>\<open>HashDB.Put\<close> always returns \<^verbatim>\<open>(true, nil)\<close>; the model returns the index after the call.\<close>

definition Put :: "(bytes \<Rightarrow> bytes) \<Rightarrow> (bytes \<Rightarrow> bytes) \<Rightarrow> bytes \<Rightarrow> bytes \<Rightarrow> HashDB \<Rightarrow> HashDB option" where
  "Put kh H k v db =
     do {
       (self1, addnode1, r, st1) \<leftarrow> add kh H (rootnode db) (NewNode k (VBytes v)) (swarmdb db);
       Some (db\<lparr>rootnode := self1, swarmdb := st1\<rparr>)
     }"

text \<open>
  \<^verbatim>\<open>HashDB.Get\<close>: the value (\<open>None\<close> for a \<^verbatim>\<open>nil\<close> slice), the boolean, and the index after
  the call.
\<close>

definition HGet :: "(bytes \<Rightarrow> bytes) \<Rightarrow> bytes \<Rightarrow> HashDB \<Rightarrow> (bytes option \<times> bool \<times> HashDB) option" where
  "HGet kh k db =
     do {
       (ret, self1) \<leftarrow> node_Get kh (swarmdb db) k (rootnode db);
       Some (if ret = VNil then (None, False, db\<lparr>rootnode := self1\<rparr>)
             else (convertToByte ret, True, db\<lparr>rootnode := self1\<rparr>))
     }"

text \<open>
  \<^verbatim>\<open>HashDB.Insert\<close>: the boolean, whether the error \<^verbatim>\<open>"... is already in Database"\<close> is
  returned, and the index after the call. The test \<^verbatim>\<open>res != nil || b\<close> is written as Go
  evaluates it, the second operand only when the first is false.
\<close>

definition Insert :: "(bytes \<Rightarrow> bytes) \<Rightarrow> (bytes \<Rightarrow> bytes) \<Rightarrow> bytes \<Rightarrow> bytes \<Rightarrow> HashDB
    \<Rightarrow> (bool \<times> bool \<times> HashDB) option" where
  "Insert kh H k v db =
     do {
       (res, b, db1) \<leftarrow> HGet kh k db;
       if (if res \<noteq> None then True else b) then Some (False, True, db1)
       else do { db2 \<leftarrow> Put kh H k v db1; Some (True, False, db2) }
     }"

text \<open>\<^verbatim>\<open>HashDB.Delete\<close> drops the pointer \<^verbatim>\<open>Node.Delete\<close> returns.\<close>

definition Delete :: "(bytes \<Rightarrow> bytes) \<Rightarrow> bytes \<Rightarrow> HashDB \<Rightarrow> HashDB option" where
  "Delete kh k db =
     do {
       (self1, ret) \<leftarrow> node_Delete kh k (rootnode db);
       Some (db\<lparr>rootnode := self1\<rparr>)
     }"

subsection \<open>Reachable states and the shape of the trie\<close>

text \<open>All nodes strictly below a node, through the occupied slots.\<close>

fun subnodes :: "hnode \<Rightarrow> hnode list" where
  "subnodes (HNode k v nx bs l r h ld) =
     concat (map (\<lambda>b. case b of None \<Rightarrow> [] | Some c \<Rightarrow> c # subnodes c) bs)"




text \<open>
  The states of a trie that holds one key \<open>k\<close> in slot \<open>b\<close> of the root (the leaf loaded
  or not), and of the trie after that leaf is removed.
\<close>

definition leaf_node :: "(bytes \<Rightarrow> bytes) \<Rightarrow> bytes \<Rightarrow> bytes \<Rightarrow> bool \<Rightarrow> hnode" where
  "leaf_node H k v ld =
     HNode k (VBytes v) False (replicate 64 None) 1 False (H (leaf_chunk k (VBytes v))) ld"

definition one_root :: "(bytes \<Rightarrow> bytes) \<Rightarrow> bytes \<Rightarrow> bytes \<Rightarrow> nat \<Rightarrow> bool \<Rightarrow> bytes \<Rightarrow> hnode" where
  "one_root H k v b ld h =
     HNode [] VNil False ((replicate 64 None)[b := Some (leaf_node H k v ld)]) 0 True h True"

definition one_db :: "(bytes \<Rightarrow> bytes) \<Rightarrow> bytes \<Rightarrow> bytes \<Rightarrow> nat \<Rightarrow> bool \<Rightarrow> HashDB" where
  "one_db H k v b ld =
     \<lparr>rootnode = one_root H k v b ld (H (bins_chunk (one_root H k v b False []))),
      swarmdb = [H (leaf_chunk k (VBytes v)) \<mapsto> leaf_chunk k (VBytes v),
                 H (bins_chunk (one_root H k v b False [])) \<mapsto> bins_chunk (one_root H k v b False [])],
      buffered = False\<rparr>"

definition no_db :: "(bytes \<Rightarrow> bytes) \<Rightarrow> bytes \<Rightarrow> bytes \<Rightarrow> nat \<Rightarrow> HashDB" where
  "no_db H k v b =
     \<lparr>rootnode = HNode [] VNil False ((replicate 64 None)[b := None]) 0 True
                   (H (bins_chunk (one_root H k v b False []))) True,
      swarmdb = [H (leaf_chunk k (VBytes v)) \<mapsto> leaf_chunk k (VBytes v),
                 H (bins_chunk (one_root H k v b False [])) \<mapsto> bins_chunk (one_root H k v b False [])],
      buffered = False\<rparr>"

text \<open>
  Sample parameters for the examples: two keys whose SHA3-256 digests both start with the
  six bits 101001 (slot 41), two values, \<^verbatim>\<open>keyhash\<close> at the two keys (the values of the real
  function), and a chunk address function that is SHA-256 at the two chunks the examples
  store (the leaf chunk of the first key and the root chunk over it).
\<close>

definition key_alice :: bytes where "key_alice = [0x61, 0x6c, 0x69, 0x63, 0x65]"

definition key_walter :: bytes where "key_walter = [0x77, 0x61, 0x6c, 0x74, 0x65, 0x72]"

definition value_1 :: bytes where "value_1 = replicate 32 0x11"

definition value_2 :: bytes where "value_2 = replicate 32 0x22"

definition sha3_sample :: "bytes \<Rightarrow> bytes" where
  "sha3_sample k =
     (if k = key_alice then
        [0xa7, 0xdc, 0xef, 0x9a, 0xef, 0x26, 0x20, 0x2f, 0xce, 0x82, 0xa7, 0xc7, 0xd6, 0x67, 0x2a, 0xfb, 0x3a, 0x14, 0x9d, 0xb2, 0x07, 0xd9, 0x0a, 0x07, 0xe4, 0x37, 0xd5, 0xab, 0xc7, 0xfc, 0x99, 0xed]
      else if k = key_walter then
        [0xa6, 0xc8, 0x00, 0x54, 0x61, 0x2d, 0x04, 0x81, 0x8e, 0x83, 0xb5, 0xff, 0xff, 0x33, 0x56, 0xd2, 0xd0, 0x39, 0xe9, 0x9d, 0xe1, 0x19, 0x4e, 0x86, 0x9e, 0xfb, 0x05, 0x46, 0x9f, 0x53, 0xae, 0xfe]
      else replicate 32 0)"

definition hash_leaf_alice :: bytes where
  "hash_leaf_alice = [0xbf, 0xd9, 0xdf, 0xd0, 0xe9, 0x54, 0xb5, 0x0c, 0x70, 0xb3, 0x84, 0xd1, 0xf7, 0xcc, 0x92, 0x77, 0x97, 0xc0, 0x22, 0x2a, 0x69, 0xfc, 0xd8, 0xbf, 0xf1, 0x8b, 0x34, 0x3d, 0xd0, 0xc9, 0x30, 0x13]"

definition chunk_hash_sample :: "bytes \<Rightarrow> bytes" where
  "chunk_hash_sample c =
     (if c = leaf_chunk key_alice (VBytes value_1) then hash_leaf_alice
      else if c = bins_chunk (HNode [] VNil False
                    ((replicate 64 None)[41 := Some (HNode key_alice (VBytes value_1) False
                        (replicate 64 None) 1 False hash_leaf_alice False)]) 0 True [] True) then
        [0x8a, 0xe4, 0x4a, 0x47, 0x66, 0x1c, 0x2e, 0xe2, 0x56, 0x63, 0xee, 0x46, 0x17, 0x45, 0x64, 0x94, 0xea, 0x25, 0xec, 0x69, 0xbb, 0xce, 0x18, 0xce, 0x6c, 0x3c, 0x3c, 0xfb, 0xb7, 0xcf, 0x53, 0x2e]
      else replicate 32 0)"

section \<open>Table descriptor (unnamed/part_000: \<^verbatim>\<open>CreateTable\<close>, \<^verbatim>\<open>OpenTable\<close>)\<close>

datatype table_error = NotFound | RequestFormatError

text \<open>
  \<^verbatim>\<open>Column\<close>, the argument of \<^verbatim>\<open>CreateTable\<close> (its declaration is not among the sources; the
  fields are those \<^verbatim>\<open>CreateTable\<close> and \<^verbatim>\<open>GetTableInfo\<close> use). Go strings are byte lists here.
\<close>

record Column =
  ColumnName :: bytes
  IndexType :: int
  ColumnType :: int
  Primary :: int

record ColumnInfo =
  columnName :: bytes
  indexType :: byte
  roothash :: bytes
  columnType :: byte
  primary :: byte

text \<open>
  \<^verbatim>\<open>Table\<close>, without the copy of the \<^verbatim>\<open>SwarmDB\<close> value it carries and without the index
  objects of its columns (\<^verbatim>\<open>NewBPlusTreeDB\<close> and \<^verbatim>\<open>NewHashDB\<close> build them from the fields kept
  here and return no error). \<open>'f\<close> stands for \<^verbatim>\<open>float64\<close>.
\<close>

record 'f Table =
  ownerID :: bytes
  tableName :: bytes
  primaryColumnName :: bytes
  columns :: "bytes \<rightharpoonup> ColumnInfo"
  bid :: 'f
  replication :: int
  encrypted :: int

text \<open>
  Modelled from the spec: the root-hash registry (\<^verbatim>\<open>GetRootHash\<close>, \<^verbatim>\<open>StoreRootHash\<close> of the
  ENS simulation, which is not among the sources): a mapping from a name to a hash, with
  \<^verbatim>\<open>notFound\<close> for a name that has none. Neither the chunk store nor the registry of the
  model fails on a write.
\<close>

record 'f SwarmDB =
  tables :: "bytes \<rightharpoonup> 'f Table"
  dbchunkstore :: chunkstore
  ensdb :: "bytes \<rightharpoonup> bytes"

definition GetRootHash :: "(bytes \<rightharpoonup> bytes) \<Rightarrow> bytes \<Rightarrow> table_error + bytes" where
  "GetRootHash e name = (case e name of None \<Rightarrow> Inl NotFound | Some h \<Rightarrow> Inr h)"

definition StoreRootHash :: "(bytes \<rightharpoonup> bytes) \<Rightarrow> bytes \<Rightarrow> bytes \<Rightarrow> (bytes \<rightharpoonup> bytes)" where
  "StoreRootHash e name h = e(name \<mapsto> h)"

text \<open>
  The conversions \<^verbatim>\<open>FloatToByte\<close>, \<^verbatim>\<open>IntToByte\<close>, \<^verbatim>\<open>BytesToFloat\<close> and \<^verbatim>\<open>BytesToInt64\<close> are
  not among the sources; the operations take them as parameters.
\<close>

record 'f codec =
  FloatToByte :: "'f \<Rightarrow> bytes"
  IntToByte :: "int \<Rightarrow> bytes"
  BytesToFloat :: "bytes \<Rightarrow> 'f"
  BytesToInt64 :: "bytes \<Rightarrow> int"

text \<open>\<^verbatim>\<open>GetTableKey\<close>: \<^verbatim>\<open>owner|tableName\<close>.\<close>

definition GetTableKey :: "bytes \<Rightarrow> bytes \<Rightarrow> bytes" where
  "GetTableKey owner name = owner @ [0x7C] @ name"

text \<open>\<^verbatim>\<open>NewTable\<close>: a fresh table, registered in the table map.\<close>

definition NewTable :: "'f \<Rightarrow> bytes \<Rightarrow> bytes \<Rightarrow> 'f SwarmDB \<Rightarrow> 'f Table \<times> 'f SwarmDB" where
  "NewTable zero owner name db =
     (let t = \<lparr>ownerID = owner, tableName = name, primaryColumnName = [], columns = Map.empty,
                bid = zero, replication = 0, encrypted = 0\<rparr>
      in (t, db\<lparr>tables := (tables db)(GetTableKey owner name \<mapsto> t)\<rparr>))"

text \<open>\<^verbatim>\<open>copy(buf[off:], src)\<close>, with the panic of the slice expression when \<open>off\<close> is beyond the buffer.\<close>

definition copy_from :: "bytes \<Rightarrow> nat \<Rightarrow> bytes \<Rightarrow> bytes option" where
  "copy_from buf off src = (if off \<le> length buf then Some (copy_at buf off src) else None)"

text \<open>
  The loop of \<^verbatim>\<open>CreateTable\<close> over the columns, from index \<open>i\<close>: the buffer and the name of
  the last column marked primary.
\<close>

fun write_columns :: "nat \<Rightarrow> Column list \<Rightarrow> bytes \<Rightarrow> bytes \<Rightarrow> (bytes \<times> bytes) option" where
  "write_columns i [] buf p = Some (buf, p)"
| "write_columns i (c # cs) buf p =
     do {
       b1 \<leftarrow> copy_from buf (2048 + i * 64) (ColumnName c);
       b2 \<leftarrow> copy_from b1 (2048 + i * 64 + 26) [word_of_int (Primary c)];
       b3 \<leftarrow> copy_from b2 (2048 + i * 64 + 28) [word_of_int (ColumnType c)];
       b4 \<leftarrow> copy_from b3 (2048 + i * 64 + 30) [word_of_int (IndexType c)];
       write_columns (i + 1) cs b4 (if Primary c > 0 then ColumnName c else p)
     }"

text \<open>
  The loop of \<^verbatim>\<open>OpenTable\<close> over the column records at the offsets given. \<^verbatim>\<open>setprimary\<close> is
  never assigned in the source, so it is passed on unchanged. \<^verbatim>\<open>primaryColumnType\<close> only
  goes into the index objects and is left out with them.
\<close>

fun read_columns :: "nat list \<Rightarrow> bytes \<Rightarrow> 'f Table \<Rightarrow> bool
    \<Rightarrow> (table_error option \<times> 'f Table) option" where
  "read_columns [] cb t setprimary = Some (None, t)"
| "read_columns (i # offs) cb t setprimary =
     (if length cb < i + 64 then None
      else
        (let buf = take 64 (drop i cb)
         in if buf ! 0 = 0 then Some (None, t)
            else
              (let ci = \<lparr>columnName = Trim0 (take 25 buf), indexType = buf ! 30,
                         roothash = drop 32 buf, columnType = buf ! 28, primary = buf ! 26\<rparr>;
                   t1 = t\<lparr>columns := (columns t)(columnName ci \<mapsto> ci)\<rparr>
               in if primary ci = 1 then
                    (if \<not> setprimary then
                       read_columns offs cb (t1\<lparr>primaryColumnName := columnName ci\<rparr>) setprimary
                     else Some (Some RequestFormatError, t1))
                  else read_columns offs cb t1 setprimary)))"

text \<open>\<^verbatim>\<open>OpenTable\<close>: the error returned (if any) and the table after the call.\<close>

definition OpenTable :: "'f codec \<Rightarrow> 'f SwarmDB \<Rightarrow> 'f Table \<Rightarrow> (table_error option \<times> 'f Table) option" where
  "OpenTable cd db t =
     (let t0 = t\<lparr>columns := Map.empty\<rparr>
      in case GetRootHash (ensdb db) (tableName t0) of
           Inl e \<Rightarrow> Some (Some e, t0)
         | Inr h \<Rightarrow>
             (let (columnbuf, err) = RetrieveDBChunk (dbchunkstore db) h
              in if err then Some (Some NotFound, t0)
                 else
                   (case read_columns (map (\<lambda>j. 2048 + 64 * j) [0 ..< 31]) columnbuf t0 False of
                      None \<Rightarrow> None
                    | Some (Some e, t1) \<Rightarrow> Some (Some e, t1)
                    | Some (None, t1) \<Rightarrow>
                        (if length columnbuf < 4024 then None
                         else Some (None,
                           t1\<lparr>bid := BytesToFloat cd (take 8 (drop 4000 columnbuf)),
                              replication := BytesToInt64 cd (take 8 (drop 4008 columnbuf)),
                              encrypted := BytesToInt64 cd (take 8 (drop 4016 columnbuf))\<rparr>)))))"

text \<open>The descriptor chunk \<^verbatim>\<open>CreateTable\<close> builds, and the primary column name it finds.\<close>

definition descriptor :: "'f codec \<Rightarrow> Column list \<Rightarrow> 'f \<Rightarrow> int \<Rightarrow> int \<Rightarrow> (bytes \<times> bytes) option" where
  "descriptor cd cols b r e =
     do {
       (buf, p) \<leftarrow> write_columns 0 cols (replicate 4096 0) [];
       Some (copy_at (copy_at (copy_at buf 4000 (take 8 (FloatToByte cd b)))
                        4008 (take 8 (IntToByte cd r)))
               4016 (take 8 (IntToByte cd e)), p)
     }"

text \<open>
  \<^verbatim>\<open>CreateTable\<close>: the error returned (if any), the table and the database after the call.
  The test \<^verbatim>\<open>len(columns) > columnsMax\<close> only prints a message. The table is reached
  through a pointer, so the table map holds the table as it is at the end.
\<close>

definition CreateTable :: "'f codec \<Rightarrow> (bytes \<Rightarrow> bytes) \<Rightarrow> 'f \<Rightarrow> bytes \<Rightarrow> bytes \<Rightarrow> Column list
    \<Rightarrow> 'f \<Rightarrow> int \<Rightarrow> int \<Rightarrow> 'f SwarmDB \<Rightarrow> (table_error option \<times> 'f Table \<times> 'f SwarmDB) option" where
  "CreateTable cd H zero owner name cols b r e db =
     (let (tbl, db1) = NewTable zero owner name db
      in do {
           (buf, p) \<leftarrow> descriptor cd cols b r e;
           let (swarmhash, st1) = StoreDBChunk H buf (dbchunkstore db1);
               tbl1 = tbl\<lparr>primaryColumnName := p, tableName := name\<rparr>;
               db2 = db1\<lparr>dbchunkstore := st1, ensdb := StoreRootHash (ensdb db1) name swarmhash\<rparr>
           in do {
             (err, tbl2) \<leftarrow> OpenTable cd db2 tbl1;
             Some (err, tbl2, db2\<lparr>tables := (tables db2)(GetTableKey owner name \<mapsto> tbl2)\<rparr>)
           }
         })"

definition no_tables :: "'f SwarmDB" where
  "no_tables = \<lparr>tables = Map.empty, dbchunkstore = Map.empty, ensdb = Map.empty\<rparr>"

text \<open>
  Sample arguments: a codec of eight bytes, least significant first, with a \<^verbatim>\<open>float64\<close>
  standing as its 64 bits; a chunk digest; the owner \<^verbatim>\<open>owner1\<close>, the table \<^verbatim>\<open>contacts\<close>, and
  columns \<^verbatim>\<open>email\<close> and \<^verbatim>\<open>age\<close>.
\<close>

definition codec_sample :: "64 word codec" where
  "codec_sample =
     \<lparr>FloatToByte = PutUint64, IntToByte = (\<lambda>i. PutUint64 (word_of_int i)),
      BytesToFloat = (\<lambda>b. word_of_nat (Uint64 b)),
      BytesToInt64 = (\<lambda>b. sint (word_of_nat (Uint64 b) :: 64 word))\<rparr>"

definition descriptor_hash_sample :: "bytes \<Rightarrow> bytes" where
  "descriptor_hash_sample c = take 32 (drop 2048 c)"

definition owner_sample :: bytes where
  "owner_sample = [0x6f, 0x77, 0x6e, 0x65, 0x72, 0x31]"

definition table_sample :: bytes where
  "table_sample = [0x63, 0x6f, 0x6e, 0x74, 0x61, 0x63, 0x74, 0x73]"

definition column_email :: "int \<Rightarrow> Column" where
  "column_email p = \<lparr>ColumnName = [0x65, 0x6d, 0x61, 0x69, 0x6c], IndexType = 1, ColumnType = 2, Primary = p\<rparr>"

definition column_age :: "int \<Rightarrow> Column" where
  "column_age p = \<lparr>ColumnName = [0x61, 0x67, 0x65], IndexType = 1, ColumnType = 1, Primary = p\<rparr>"


subsection \<open>The slot index is the six digest bits of the level\<close>

lemma bit_63_iff: "bit (63::int) n \<longleftrightarrow> n < 6"
proof -
  have "bit (2 ^ 6 - 1 :: int) n \<longleftrightarrow> n < 6"
    using bit_mask_iff [where ?'a = int, of 6 n] by (simp only: mask_eq_exp_minus_1) simp
  then show ?thesis by simp
qed

lemma length_six: "length [a, b, c, d, e, f] = 6"
  by simp

lemma less_six_iff: "n < (6::nat) \<longleftrightarrow> n = 0 \<or> n = 1 \<or> n = 2 \<or> n = 3 \<or> n = 4 \<or> n = 5"
  by auto

lemma bits_value_horner: "bits_value bs = horner_sum of_bool 2 (rev bs)"
  unfolding bits_value_def horner_sum_foldr
  by (simp add: foldr_conv_foldl add.commute mult.commute)

lemma shifted_add_is_or_2:
  "push_bit 2 (uint (a::byte)) + drop_bit 6 (uint (b::byte)) = push_bit 2 (uint a) OR drop_bit 6 (uint b)"
  by (rule disjunctive_add) (auto simp: bit_simps dest: bit_imp_le_length)

lemma shifted_add_is_or_4:
  "push_bit 4 (uint (a::byte)) + drop_bit 4 (uint (b::byte)) = push_bit 4 (uint a) OR drop_bit 4 (uint b)"
  by (rule disjunctive_add) (auto simp: bit_simps dest: bit_imp_le_length)

text \<open>The four alignments of a six-bit window in the byte stream (bit offsets 0, 2, 4, 6).\<close>

lemma window_offset_0:
  "bits_value [bit a 7, bit a 6, bit a 5, bit a 4, bit a 3, bit a 2]
     = drop_bit 2 (uint (a::byte)) AND 63"
  unfolding bits_value_horner
  apply (rule bit_eqI)
  apply (simp only: rev.simps append.simps bit_and_iff bit_63_iff bit_horner_sum_bit_iff
      bit_drop_bit_eq length_six less_six_iff)
  apply (auto simp: bit_uint_iff eval_nat_numeral)
  done

lemma window_offset_2:
  "bits_value [bit a 5, bit a 4, bit a 3, bit a 2, bit a (Suc 0), bit a 0]
     = uint (a::byte) AND 63"
  unfolding bits_value_horner
  apply (rule bit_eqI)
  apply (simp only: rev.simps append.simps bit_and_iff bit_63_iff bit_horner_sum_bit_iff
      length_six less_six_iff)
  apply (auto simp: bit_uint_iff eval_nat_numeral)
  done

lemma window_offset_4:
  "bits_value [bit a 3, bit a 2, bit a (Suc 0), bit a 0, bit b 7, bit b 6]
     = (push_bit 2 (uint (a::byte)) + drop_bit 6 (uint (b::byte))) AND 63"
  unfolding bits_value_horner shifted_add_is_or_2
  apply (rule bit_eqI)
  apply (simp only: rev.simps append.simps bit_and_iff bit_or_iff bit_63_iff
      bit_horner_sum_bit_iff bit_drop_bit_eq bit_push_bit_iff length_six less_six_iff)
  apply (auto simp: bit_uint_iff eval_nat_numeral dest: bit_imp_le_length)
  done

lemma window_offset_6:
  "bits_value [bit a (Suc 0), bit a 0, bit b 7, bit b 6, bit b 5, bit b 4]
     = (push_bit 4 (uint (a::byte)) + drop_bit 4 (uint (b::byte))) AND 63"
  unfolding bits_value_horner shifted_add_is_or_4
  apply (rule bit_eqI)
  apply (simp only: rev.simps append.simps bit_and_iff bit_or_iff bit_63_iff
      bit_horner_sum_bit_iff bit_drop_bit_eq bit_push_bit_iff length_six less_six_iff)
  apply (auto simp: bit_uint_iff eval_nat_numeral dest: bit_imp_le_length)
  done

lemma upt_six: "[n ..< n + 6] = [n, n + 1, n + 2, n + 3, n + 4, n + 5]"
  by (simp add: upt_rec)

lemma upt_six_0: "[0 ..< 6] = [0, 1, 2, 3, 4, 5::nat]"
  using upt_six [of 0] by simp

lemma go_div_nonneg: "0 \<le> a \<Longrightarrow> 0 < b \<Longrightarrow> go_div a b = a div b"
  by (cases "a = 0") (simp_all add: go_div_def)

lemma go_mod_nonneg: "0 \<le> a \<Longrightarrow> 0 < b \<Longrightarrow> go_mod a b = a mod b"
  by (simp add: go_mod_def go_div_nonneg minus_mult_div_eq_mod)

lemmas hashbin_eval = hashbin_def slot_bits_def digest_bit_def index_digest_def
  go_div_nonneg go_mod_nonneg upt_six upt_six_0 Let_def
  window_offset_0 window_offset_2 window_offset_4 window_offset_6

lemma level_cases:
  fixes d :: int
  assumes "0 \<le> d" "d \<le> 41"
  shows "d = 0 \<or> d = 1 \<or> d = 2 \<or> d = 3 \<or> d = 4 \<or> d = 5 \<or> d = 6 \<or> d = 7 \<or> d = 8 \<or> d = 9
       \<or> d = 10 \<or> d = 11 \<or> d = 12 \<or> d = 13 \<or> d = 14 \<or> d = 15 \<or> d = 16 \<or> d = 17 \<or> d = 18
       \<or> d = 19 \<or> d = 20 \<or> d = 21 \<or> d = 22 \<or> d = 23 \<or> d = 24 \<or> d = 25 \<or> d = 26 \<or> d = 27
       \<or> d = 28 \<or> d = 29 \<or> d = 30 \<or> d = 31 \<or> d = 32 \<or> d = 33 \<or> d = 34 \<or> d = 35 \<or> d = 36
       \<or> d = 37 \<or> d = 38 \<or> d = 39 \<or> d = 40 \<or> d = 41"
  using assms by arith

lemma hashbin_is_slot_bits:
  assumes "length k = 32" "0 \<le> d" "d \<le> 41"
  shows "hashbin k d = Inr (slot_bits k (nat d))"
  using level_cases [OF assms(2,3)] assms(1)
  by (elim disjE) (simp_all add: hashbin_eval)

lemma bits_value_six_bound: "length bs = 6 \<Longrightarrow> 0 \<le> bits_value bs \<and> bits_value bs < 64"
proof -
  assume "length bs = 6"
  then obtain a b c d e f where "bs = [a, b, c, d, e, f]"
    by (auto simp: length_Suc_conv eval_nat_numeral)
  then show ?thesis
    by (simp add: bits_value_def)
qed

lemma slot_bits_bound: "0 \<le> slot_bits k d \<and> slot_bits k d < 64"
  unfolding slot_bits_def by (rule bits_value_six_bound) simp

text \<open>
  C9 (as amended). For every 32-byte digest \<open>k\<close> and every level \<open>d\<close> with
  \<open>0 \<le> d \<le> 41\<close>, \<^const>\<open>hashbin\<close> does not panic (it reads only bytes of the digest)
  and returns the integer formed by the digest bits \<open>[6d, 6d+6)\<close>, most significant bit
  first, a value in \<open>[0, 64)\<close>.
\<close>

theorem hashbin_slot:
  assumes "length k = 32" "0 \<le> d" "d \<le> 41"
  shows "hashbin k d = Inr (slot_bits k (nat d))
         \<and> 0 \<le> slot_bits k (nat d) \<and> slot_bits k (nat d) < 64"
  using hashbin_is_slot_bits [OF assms] slot_bits_bound [of k "nat d"] by simp

theorem hashbin_slot_witness:
  "hashbin (replicate 31 0 @ [0xFF]) 41 = Inr 15
   \<and> slot_bits (replicate 31 0 @ [0xFF]) (nat 41) = 15"
proof -
  have len: "length (replicate 31 0 @ [0xFF :: byte]) = 32" by simp
  have v: "slot_bits (replicate 31 0 @ [0xFF]) (nat 41) = 15"
    by (simp add: slot_bits_def digest_bit_def bits_value_def upt_six nth_append)
  from hashbin_slot [OF len, of 41] v show ?thesis by simp
qed

text \<open>
  At level 42 the window starts at bit 252 (byte 31, bit offset 4): the second byte read
  is \<^verbatim>\<open>k[32]\<close>, outside the array, and the Go code panics.
\<close>

theorem hashbin_level_42_panics:
  "hashbin (replicate 32 0) 42 = Inl IndexOutOfRange"
  by (simp add: hashbin_def index_digest_def go_div_def go_mod_def)


section \<open>B-tree: the root split of \<^verbatim>\<open>ReplaceOrInsert\<close>\<close>

lemmas node_upd_defs = set_items_def set_children_def set_dirty_def set_notloaded_def set_hashid_def newNode_def


lemma split_at_median:
  assumes "1 \<le> mi" "mi \<le> int (length (items r))"
    and "children r = [] \<or> length (children r) = length (items r) + 1"
  shows "split r (go_div mi 2) =
           Some (items r ! nat (mi div 2),
                 set_children (take (nat (mi div 2) + 1) (children r)) (set_items (take (nat (mi div 2)) (items r)) r),
                 Node (drop (nat (mi div 2) + 1) (items r)) (drop (nat (mi div 2) + 1) (children r)) False False [])"
proof -
  have d: "go_div mi 2 = mi div 2" using assms(1) by (simp add: go_div_nonneg)
  have b: "0 \<le> mi div 2" "mi div 2 < int (length (items r))" using assms(1,2) by auto
  show ?thesis
    using assms(3) b unfolding split_def d
    by (cases r) (auto simp: node_upd_defs Let_def)
qed





section \<open>B-tree: flushing and reopening\<close>

text \<open>
  C1. The code at a failing input: a table opened on empty directories, one item
  inserted and flushed, a second item inserted and flushed again. The first flush stores
  the root chunk and the registry entry (the old hashid was empty) and leaves the root
  dirty. In the second flush the hash of the root changes, so the test
  \<^verbatim>\<open>n.hashid == old_hashid || len(old_hashid) < 1\<close> fails: no chunk is stored under the
  new hash, \<^verbatim>\<open>Flush\<close> returns false, the registry still names the old root, and the
  root is still dirty.
\<close>

theorem second_Flush_stores_nothing:
  "(case ReplaceOrInsert Map.empty (DBIndex ''a'' ''v'') (Open empty_world ''contacts'') of
      None \<Rightarrow> False
    | Some (t1, out1) \<Rightarrow>
        (case Flush sha256_hex_sample ''contacts'' t1 empty_world of
           None \<Rightarrow> False
         | Some (t2, w2, changed2) \<Rightarrow>
             changed2
             \<and> ens w2 ''contacts'' = Some (sha256_hex_sample ''av'')
             \<and> map_option dirty (root t2) = Some True
             \<and> (case ReplaceOrInsert (chunks w2) (DBIndex ''b'' ''v'') t2 of
                  None \<Rightarrow> False
                | Some (t3, out3) \<Rightarrow>
                    (case Flush sha256_hex_sample ''contacts'' t3 w2 of
                       None \<Rightarrow> False
                     | Some (t4, w4, changed4) \<Rightarrow>
                         \<not> changed4
                         \<and> map_option hashid (root t4) = Some (sha256_hex_sample ''avbv'')
                         \<and> chunks w4 (sha256_hex_sample ''avbv'') = None
                         \<and> ens w4 ''contacts'' = Some (sha256_hex_sample ''av'')
                         \<and> map_option dirty (root t4) = Some True))))"
  by code_simp

text \<open>
  C2. The code at a failing input: the keys 1..8 inserted into a table opened on empty
  directories (the root splits into 4 over 1,2,3 and 5,6,7,8), flushed, and the table
  opened again. Before, \<^verbatim>\<open>Get\<close> finds key 1. After, the root has its item and two child
  stubs; \<^verbatim>\<open>node.get\<close> descends into the stub without loading it and returns \<^verbatim>\<open>nil\<close>.
\<close>

theorem Get_after_reopen_misses_child_items:
  "(case ReplaceOrInsert_all Map.empty
           (map (\<lambda>k. DBIndex k ''v'') [''1'', ''2'', ''3'', ''4'', ''5'', ''6'', ''7'', ''8''])
           (Open empty_world ''contacts'') of
      None \<Rightarrow> False
    | Some t \<Rightarrow>
        (case Flush sha256_hex_sample ''contacts'' t empty_world of
           None \<Rightarrow> False
         | Some (t1, w1, changed) \<Rightarrow>
             changed
             \<and> Get t1 (DBIndex ''1'' []) = Some (Some (DBIndex ''1'' ''v''))
             \<and> Get (Open w1 ''contacts'') (DBIndex ''1'' []) = Some None))"
  by code_simp

section \<open>Hash-trie: chunks, loading and the shape of the trie\<close>

lemmas hnode_upd_defs = set_Key_def set_Value_def set_Next_def set_Bin_def set_Level_def
  set_Root_def set_NodeHash_def set_Loaded_def

lemma length_copy_at: "length (copy_at dst off src) = length dst"
  by (simp add: copy_at_def)

lemma bins_fold_length:
  "length (fold (\<lambda>(i, b) buf. case b of None \<Rightarrow> buf | Some c \<Rightarrow> copy_at buf (64 + i * 32) (NodeHash c)) xs buf) = length buf"
  by (induction xs arbitrary: buf) (auto simp: length_copy_at split: option.splits)

lemma length_bins_chunk: "length (bins_chunk n) = 4224"
  unfolding bins_chunk_def Let_def
  by (simp add: bins_fold_length length_copy_at)

lemma take_copy_at: "n \<le> off \<Longrightarrow> off \<le> length dst \<Longrightarrow> take n (copy_at dst off src) = take n dst"
  by (simp add: copy_at_def)

lemma length_leaf_chunk: "length (leaf_chunk k v) = 4096"
  by (simp add: leaf_chunk_def length_copy_at)

lemma take8_leaf_chunk: "take 8 (leaf_chunk k v) = replicate 8 0"
  by (simp add: leaf_chunk_def take_copy_at length_copy_at)

lemma Uint64_zeros: "Uint64 (replicate n 0) = 0"
  by (induction n) (simp_all add: Uint64_def)

lemma Uint64_leaf_chunk: "Uint64 (take 8 (leaf_chunk k v)) = 0"
  by (simp add: take8_leaf_chunk Uint64_zeros)

lemma leaf_chunk_layout:
  assumes "length vb = 32" "length k \<le> 4000"
  shows "leaf_chunk k (VBytes vb) = replicate 64 0 @ vb @ k @ replicate (4000 - length k) 0"
proof -
  have a: "copy_at (replicate 4096 0) 64 vb = replicate 64 0 @ vb @ replicate 4000 (0::byte)"
    using assms(1) by (simp add: copy_at_def)
  have "copy_at (replicate 64 0 @ vb @ replicate 4000 (0::byte)) 96 k
        = replicate 64 0 @ vb @ k @ replicate (4000 - length k) 0"
    using assms by (simp add: copy_at_def)
  then show ?thesis by (simp add: leaf_chunk_def convertToByte_def a)
qed

subsection \<open>Load\<close>

lemma load_missing:
  "st (NodeHash n) = None \<Longrightarrow> load st n = Some (set_Next False (set_Loaded False n))"
  by (simp add: load_def RetrieveDBChunk_def)

lemma load_leaf_chunk:
  assumes "st (NodeHash n) = Some (leaf_chunk k v)"
  shows "\<exists>k' vb. load st n = Some (set_Loaded True (set_Next False (set_Value (VBytes vb) (set_Key k' n))))"
  using assms
  by (auto simp: load_def RetrieveDBChunk_def length_leaf_chunk Uint64_leaf_chunk Let_def)

lemma takeWhile_nonzero_prefix:
  "0 \<notin> set k \<Longrightarrow> takeWhile (\<lambda>b. b \<noteq> 0) (k @ replicate n (0::byte)) = k"
  by (induction k) auto

lemma load_leaf_chunk_exact:
  assumes "st (NodeHash n) = Some (leaf_chunk k (VBytes vb))"
    and "length vb = 32" "k \<noteq> []" "0 \<notin> set k" "length k \<le> 4000"
  shows "load st n = Some (set_Loaded True (set_Next False (set_Value (VBytes vb) (set_Key k n))))"
proof -
  let ?c = "leaf_chunk k (VBytes vb)"
  have lay: "?c = replicate 64 0 @ vb @ k @ replicate (4000 - length k) 0"
    by (rule leaf_chunk_layout) (use assms in auto)
  have d96: "drop 96 ?c = k @ replicate (4000 - length k) 0"
    using assms(2) by (simp add: lay)
  have d64: "take 32 (drop 64 ?c) = vb"
    using assms(2) by (simp add: lay)
  have tw: "takeWhile (\<lambda>b. b \<noteq> 0) (drop 96 ?c) = k"
    unfolding d96 by (rule takeWhile_nonzero_prefix) fact
  have kpos: "0 < length k" using assms(3) by simp
  show ?thesis
    using assms(1) kpos
    by (simp add: load_def RetrieveDBChunk_def length_leaf_chunk Uint64_leaf_chunk Let_def tw d64)
       (simp add: d96)
qed

subsection \<open>Slots\<close>

lemma slot_less_64: "slot d l = Some b \<Longrightarrow> b < 64"
proof -
  have *: "nat (x AND 63) < 64" for x :: int
  proof -
    have "x AND 63 \<le> 63" by (rule AND_upper2) simp
    then show ?thesis by arith
  qed
  assume "slot d l = Some b"
  then show ?thesis
    by (auto simp: slot_def hashbin_def Let_def * split: sum.splits if_splits)
qed

subsection \<open>Evaluating add\<close>

lemma finish_add_eq:
  "finish_add H self a st =
     Some (set_Loaded True (set_NodeHash (H (bins_chunk self)) self), a, RetSelf,
           st(H (bins_chunk self) \<mapsto> bins_chunk self))"
  by (simp add: finish_add_def storeBinToNetwork_def StoreDBChunk_def)



subsection \<open>Adding at the root\<close>

lemma add_root:
  assumes "rld \<or> rh = [] \<and> st [] = None" "length rb = 64"
  shows "add kh H (HNode rk rv False rb rl True rh rld) a st =
     (case slot (kh (Key a)) rl of
        None \<Rightarrow> None
      | Some bin \<Rightarrow>
          (case rb ! bin of
             None \<Rightarrow>
               finish_add H
                 (HNode rk rv False
                    (rb[bin := Some (set_NodeHash (H (leaf_chunk (Key a) (Value a))) (set_Level (rl + 1) a))])
                    rl True rh True)
                 (set_NodeHash (H (leaf_chunk (Key a) (Value a))) (set_Level (rl + 1) a))
                 (st(H (leaf_chunk (Key a) (Value a)) \<mapsto> leaf_chunk (Key a) (Value a)))
           | Some c \<Rightarrow>
               (if \<not> Loaded c then load st c else Some c) \<bind>
               (\<lambda>c1. add kh H c1 a st \<bind>
                  (\<lambda>(c2, a2, r, st2).
                     finish_add H
                       (HNode rk rv False
                          (rb[bin := Some (case r of RetSelf \<Rightarrow> c2 | RetAddnode \<Rightarrow> a2)])
                          rl True rh True)
                       a2 st2))))"
  using assms
  by (subst add.simps)
     (auto simp: load_missing hnode_upd_defs StoreDBChunk_def Let_def leaf_chunk_def
        dest: slot_less_64 split: option.splits)

lemma subnodes_leaf: "Bin c = replicate 64 None \<Longrightarrow> subnodes c = []"
  by (cases c) simp


lemma Put_on_empty:
  assumes "slot (kh k) 0 = Some b"
  shows "Put kh H k v (NewHashDB Map.empty) =
     Some \<lparr>rootnode = HNode [] VNil False
              ((replicate 64 None)[b := Some (HNode k (VBytes v) False (replicate 64 None) 1 False
                                              (H (leaf_chunk k (VBytes v))) False)])
              0 True
              (H (bins_chunk (HNode [] VNil False
                 ((replicate 64 None)[b := Some (HNode k (VBytes v) False (replicate 64 None) 1 False
                                              (H (leaf_chunk k (VBytes v))) False)])
                 0 True [] True)))
              True,
           swarmdb = [H (leaf_chunk k (VBytes v)) \<mapsto> leaf_chunk k (VBytes v),
                      H (bins_chunk (HNode [] VNil False
                 ((replicate 64 None)[b := Some (HNode k (VBytes v) False (replicate 64 None) 1 False
                                              (H (leaf_chunk k (VBytes v))) False)])
                 0 True [] True)) \<mapsto>
                      bins_chunk (HNode [] VNil False
                 ((replicate 64 None)[b := Some (HNode k (VBytes v) False (replicate 64 None) 1 False
                                              (H (leaf_chunk k (VBytes v))) False)])
                 0 True [] True)],
           buffered = False\<rparr>"
proof -
  have b: "b < 64" by (rule slot_less_64 [OF assms])
  have "add kh H (HNode [] VNil False (replicate 64 None) 0 True [] False) (NewNode k (VBytes v)) Map.empty
        = finish_add H
            (HNode [] VNil False
              ((replicate 64 None)[b := Some (HNode k (VBytes v) False (replicate 64 None) 1 False
                                              (H (leaf_chunk k (VBytes v))) False)])
              0 True [] True)
            (HNode k (VBytes v) False (replicate 64 None) 1 False (H (leaf_chunk k (VBytes v))) False)
            [H (leaf_chunk k (VBytes v)) \<mapsto> leaf_chunk k (VBytes v)]"
    using assms b
    by (subst add_root) (simp_all add: NewNode_def binnum_def hnode_upd_defs)
  then show ?thesis
    by (simp add: Put_def NewHashDB_def NewNode_def binnum_def hnode_upd_defs finish_add_eq)
qed


lemma node_Get_leaf_slot:
  assumes "slot (kh q) rl = Some b" "b < length rb" "rb ! b = Some c"
    and "(if \<not> Loaded c then load st c else Some c) = Some c1" "\<not> Next c1"
  shows "node_Get kh st q (HNode rk rv nx rb rl rt rh True)
         = Some (if compareVal q (Key c1) then Value c1 else VErr,
                 HNode rk rv nx (rb[b := Some c1]) rl rt rh True)"
  using assms by (subst node_Get.simps) (auto simp: hnode_upd_defs split: if_splits)

lemma node_Get_empty_slot:
  assumes "slot (kh q) rl = Some b" "b < length rb" "rb ! b = None"
  shows "node_Get kh st q (HNode rk rv nx rb rl rt rh True)
         = Some (VNil, HNode rk rv nx rb rl rt rh True)"
  using assms by (subst node_Get.simps) (auto simp: hnode_upd_defs)

lemma subnodes_single:
  assumes "b < n" "Bin c = replicate 64 None"
  shows "subnodes (HNode k v nx ((replicate n None)[b := Some c]) l r h ld) = [c]"
proof -
  have "(replicate n None)[b := Some c] = replicate b None @ Some c # replicate (n - b - 1) None"
    using assms(1) by (simp add: upd_conv_take_nth_drop min_def)
  then show ?thesis using assms(2) by (simp add: subnodes_leaf)
qed



lemma Put_on_empty_one_db:
  "slot (kh k) 0 = Some b \<Longrightarrow> Put kh H k v (NewHashDB Map.empty) = Some (one_db H k v b False)"
  unfolding one_db_def one_root_def leaf_node_def
  by (rule Put_on_empty [where kh = kh and k = k])

lemma HGet_one_db:
  assumes nc: "\<And>n. H (bins_chunk n) \<noteq> H (leaf_chunk k (VBytes v))"
    and k: "k \<noteq> []" "0 \<notin> set k" "length k \<le> 4000" and v: "length v = 32"
    and sq: "slot (kh q) 0 = Some b"
  shows "HGet kh q (one_db H k v b ld)
         = Some (if compareVal q k then Some v else None, True, one_db H k v b True)"
proof -
  have b: "b < 64" by (rule slot_less_64 [OF sq])
  let ?st = "swarmdb (one_db H k v b ld)"
  have st: "?st (H (leaf_chunk k (VBytes v))) = Some (leaf_chunk k (VBytes v))"
    using nc [of "one_root H k v b False []"] by (simp add: one_db_def)
  have ld: "(if \<not> Loaded (leaf_node H k v ld) then load ?st (leaf_node H k v ld)
             else Some (leaf_node H k v ld)) = Some (leaf_node H k v True)"
    using load_leaf_chunk_exact [of ?st "leaf_node H k v False" k v] st k v
    by (cases ld) (simp_all add: leaf_node_def hnode_upd_defs)
  let ?bs = "(replicate 64 None)[b := Some (leaf_node H k v ld)]"
  have bs: "b < length ?bs" "?bs ! b = Some (leaf_node H k v ld)" using b by simp_all
  have nn: "\<not> Next (leaf_node H k v True)" by (simp add: leaf_node_def)
  have g: "node_Get kh ?st q (rootnode (one_db H k v b ld))
           = Some (if compareVal q k then VBytes v else VErr, rootnode (one_db H k v b True))"
    using node_Get_leaf_slot [where kh = kh and q = q and st = ?st and rl = 0 and b = b
        and rb = ?bs and c = "leaf_node H k v ld" and ?c1.0 = "leaf_node H k v True"
        and rk = "[]" and rv = VNil and nx = False and rt = True
        and rh = "H (bins_chunk (one_root H k v b False []))", OF sq bs ld nn]
    by (simp add: one_db_def one_root_def) (simp add: leaf_node_def)
  show ?thesis
    using g by (simp add: HGet_def convertToByte_def one_db_def)
qed

lemma Insert_one_db:
  assumes nc: "\<And>n. H (bins_chunk n) \<noteq> H (leaf_chunk k (VBytes v))"
    and k: "k \<noteq> []" "0 \<notin> set k" "length k \<le> 4000" and v: "length v = 32"
    and sq: "slot (kh q) 0 = Some b"
  shows "Insert kh H q w (one_db H k v b ld) = Some (False, True, one_db H k v b True)"
  by (simp add: Insert_def HGet_one_db [where H = H and k = k and kh = kh and q = q, OF nc k v sq])

lemma occupied_none: "b < n \<Longrightarrow> occupied ((replicate n None)[b := None]) = []"
  by (auto simp: occupied_def filter_empty_conv nth_list_update)

lemma Delete_one_db:
  assumes "slot (kh q) 0 = Some b"
  shows "Delete kh q (one_db H k v b ld) = Some (no_db H k v b)"
proof -
  have b: "b < 64" by (rule slot_less_64 [OF assms])
  show ?thesis
    unfolding Delete_def one_db_def one_root_def no_db_def
    apply simp
    apply (subst node_Delete.simps)
    using b apply (simp add: assms leaf_node_def hnode_upd_defs occupied_none Let_def)
    done
qed

lemma HGet_no_db:
  assumes "slot (kh q) 0 = Some b"
  shows "HGet kh q (no_db H k v b) = Some (None, False, no_db H k v b)"
proof -
  have b: "b < 64" by (rule slot_less_64 [OF assms])
  show ?thesis
    unfolding HGet_def no_db_def
    apply simp
    apply (subst node_Get_empty_slot [where b = b])
    using b apply (simp_all add: assms)
    done
qed

lemma slot_alice: "slot (sha3_sample key_alice) 0 = Some 41"
  by code_simp

lemma slot_walter: "slot (sha3_sample key_walter) 0 = Some 41"
  by code_simp


lemma alice_key_ok: "key_alice \<noteq> []" "0 \<notin> set key_alice" "length key_alice \<le> 4000"
  by (simp_all add: key_alice_def)

lemma value_1_ok: "length value_1 = 32"
  by (simp add: value_1_def)


lemma walter_not_alice: "\<not> compareVal key_walter key_alice" "key_walter \<noteq> key_alice"
  by (simp_all add: compareVal_def Trim0_def key_walter_def key_alice_def)

lemma sample_no_collision:
  "chunk_hash_sample (bins_chunk n) \<noteq> chunk_hash_sample (leaf_chunk key_alice (VBytes value_1))"
proof -
  have "bins_chunk n \<noteq> leaf_chunk key_alice (VBytes value_1)"
    using length_bins_chunk [of n] length_leaf_chunk [of key_alice "VBytes value_1"] by auto
  moreover have "replicate 32 (0::byte) \<noteq> hash_leaf_alice"
    by code_simp
  ultimately show ?thesis
    by (simp add: chunk_hash_sample_def) (simp add: hash_leaf_alice_def)
qed

lemma sample_first_put:
  "Put sha3_sample chunk_hash_sample key_alice value_1 (NewHashDB Map.empty)
   = Some (one_db chunk_hash_sample key_alice value_1 41 False)"
  by (rule Put_on_empty_one_db [where kh = sha3_sample and k = key_alice, OF slot_alice])

lemma subnodes_one_db: "b < 64 \<Longrightarrow> map Key (subnodes (rootnode (one_db H k v b ld))) = [k]"
  by (simp add: one_db_def one_root_def subnodes_single leaf_node_def del: subnodes.simps)




text \<open>
  C7. The code at a failing input: the trie holds only the key "alice"; "walter" is
  another key with the same slot at the root. \<^verbatim>\<open>Node.Get\<close> returns an error value for
  it, \<^verbatim>\<open>HashDB.Get\<close> takes every value other than \<^verbatim>\<open>nil\<close> as found, and \<^verbatim>\<open>Insert\<close>
  reports a duplicate key.
\<close>

theorem Insert_other_key_same_slot_is_duplicate:
  "(case Put sha3_sample chunk_hash_sample key_alice value_1 (NewHashDB Map.empty) of
      None \<Rightarrow> False
    | Some db1 \<Rightarrow>
        map Key (subnodes (rootnode db1)) = [key_alice] \<and> key_walter \<noteq> key_alice
        \<and> slot (sha3_sample key_walter) 0 = slot (sha3_sample key_alice) 0
        \<and> (case Insert sha3_sample chunk_hash_sample key_walter value_2 db1 of
             None \<Rightarrow> False
           | Some (ok, duplicate, db2) \<Rightarrow> \<not> ok \<and> duplicate))"
  using Insert_one_db [where H = chunk_hash_sample and kh = sha3_sample and q = key_walter
      and w = value_2 and ld = False,
      OF sample_no_collision alice_key_ok value_1_ok slot_walter]
  by (simp add: sample_first_put subnodes_one_db walter_not_alice slot_alice slot_walter)

text \<open>
  C10. The code at a failing input: the trie holds only "alice", and \<^verbatim>\<open>Get\<close> returns
  its value. \<^verbatim>\<open>Delete("walter")\<close>, a key that is not in the trie, empties the slot the two
  keys share, and "alice" is gone.
\<close>

theorem Delete_absent_key_removes_other_leaf:
  "(case Put sha3_sample chunk_hash_sample key_alice value_1 (NewHashDB Map.empty) of
      None \<Rightarrow> False
    | Some db1 \<Rightarrow>
        map Key (subnodes (rootnode db1)) = [key_alice] \<and> key_walter \<noteq> key_alice
        \<and> (case HGet sha3_sample key_alice db1 of
             None \<Rightarrow> False
           | Some (res1, found1, db2) \<Rightarrow>
               res1 = Some value_1 \<and> found1
               \<and> (case Delete sha3_sample key_walter db2 of
                    None \<Rightarrow> False
                  | Some db3 \<Rightarrow>
                      (case HGet sha3_sample key_alice db3 of
                         None \<Rightarrow> False
                       | Some (res3, found3, db4) \<Rightarrow> res3 = None \<and> \<not> found3))))"
  using HGet_one_db [where H = chunk_hash_sample and kh = sha3_sample and q = key_alice and ld = False,
      OF sample_no_collision alice_key_ok value_1_ok slot_alice]
    Delete_one_db [where H = chunk_hash_sample and kh = sha3_sample and q = key_walter
      and k = key_alice and v = value_1 and ld = True, OF slot_walter]
    HGet_no_db [where H = chunk_hash_sample and kh = sha3_sample and q = key_alice
      and k = key_alice and v = value_1, OF slot_alice]
  by (simp add: sample_first_put subnodes_one_db walter_not_alice compareVal_def)





section \<open>Creating a table\<close>

lemma write_columns_ok:
  "i + length cs \<le> 32 \<Longrightarrow> length buf = 4096
   \<Longrightarrow> \<exists>b q. write_columns i cs buf p = Some (b, q) \<and> length b = 4096"
proof (induction cs arbitrary: i buf p)
  case Nil
  then show ?case by simp
next
  case (Cons c cs)
  have i: "i \<le> 31" using Cons.prems by simp
  let ?b4 = "copy_at (copy_at (copy_at (copy_at buf (2048 + i * 64) (ColumnName c))
              (2048 + i * 64 + 26) [word_of_int (Primary c)])
              (2048 + i * 64 + 28) [word_of_int (ColumnType c)])
              (2048 + i * 64 + 30) [word_of_int (IndexType c)]"
  have l: "length ?b4 = 4096" using Cons.prems by (simp add: length_copy_at)
  have "Suc i + length cs \<le> 32" using Cons.prems by simp
  from Cons.IH [OF this l]
  obtain b q where r: "write_columns (Suc i) cs ?b4 (if Primary c > 0 then ColumnName c else p) = Some (b, q)"
    and lb: "length b = 4096" by blast
  have "write_columns i (c # cs) buf p = write_columns (Suc i) cs ?b4 (if Primary c > 0 then ColumnName c else p)"
    using i Cons.prems by (simp add: copy_from_def length_copy_at)
  with r lb show ?case by simp
qed

lemma descriptor_ok:
  assumes "length cols \<le> 32"
  shows "\<exists>buf p. descriptor cd cols b r e = Some (buf, p) \<and> length buf = 4096"
proof -
  from write_columns_ok [of 0 cols "replicate 4096 0" "[]"] assms
  obtain b0 q where "write_columns 0 cols (replicate 4096 0) [] = Some (b0, q)" "length b0 = 4096"
    by auto
  then show ?thesis by (simp add: descriptor_def length_copy_at)
qed

lemma read_columns_ok:
  "\<forall>i \<in> set offs. i + 64 \<le> length cb
   \<Longrightarrow> \<exists>t1. read_columns offs cb t False = Some (None, t1)"
proof (induction offs arbitrary: t)
  case Nil
  then show ?case by simp
next
  case (Cons i offs)
  have "\<forall>i \<in> set offs. i + 64 \<le> length cb" using Cons.prems by simp
  note ih = Cons.IH [OF this]
  have i: "\<not> length cb < i + 64" using Cons.prems by simp
  show ?case
    using ih i by (simp add: Let_def)
qed

lemma OpenTable_ok:
  assumes "ensdb db (tableName t) = Some h" and "dbchunkstore db h = Some buf" and "length buf = 4096"
  shows "\<exists>t1. OpenTable cd db t = Some (None, t1)"
proof -
  have "\<forall>i \<in> set (map (\<lambda>j. 2048 + 64 * j) [0 ..< 31]). i + 64 \<le> length buf"
    using assms(3) by auto
  from read_columns_ok [OF this, of "t\<lparr>columns := Map.empty\<rparr>"]
  obtain t1 where "read_columns (map (\<lambda>j. 2048 + 64 * j) [0 ..< 31]) buf (t\<lparr>columns := Map.empty\<rparr>) False = Some (None, t1)"
    by blast
  then show ?thesis
    using assms by (simp add: OpenTable_def GetRootHash_def RetrieveDBChunk_def Let_def del: upt.simps map_upt_Suc)
qed

lemma CreateTable_ok:
  assumes "length cols \<le> 32"
  shows "\<exists>buf p tbl db1.
           descriptor cd cols b r e = Some (buf, p)
         \<and> CreateTable cd H zero owner name cols b r e db = Some (None, tbl, db1)
         \<and> dbchunkstore db1 (H buf) = Some buf
         \<and> ensdb db1 name = Some (H buf)
         \<and> tables db1 (GetTableKey owner name) = Some tbl"
proof -
  from descriptor_ok [OF assms, of cd b r e]
  obtain buf p where d: "descriptor cd cols b r e = Some (buf, p)" and l: "length buf = 4096"
    by blast
  define tbl1 where "tbl1 = (fst (NewTable zero owner name db))\<lparr>primaryColumnName := p, tableName := name\<rparr>"
  define db2 where "db2 = (snd (NewTable zero owner name db))
      \<lparr>dbchunkstore := (dbchunkstore db)(H buf \<mapsto> buf), ensdb := (ensdb db)(name \<mapsto> H buf)\<rparr>"
  have "\<exists>t1. OpenTable cd db2 tbl1 = Some (None, t1)"
    by (rule OpenTable_ok [where h = "H buf" and buf = buf])
       (simp_all add: db2_def tbl1_def l)
  then obtain t1 where o: "OpenTable cd db2 tbl1 = Some (None, t1)" by blast
  have "CreateTable cd H zero owner name cols b r e db
        = Some (None, t1, db2\<lparr>tables := (tables db2)(GetTableKey owner name \<mapsto> t1)\<rparr>)"
    using d o
    by (simp add: CreateTable_def NewTable_def StoreDBChunk_def StoreRootHash_def Let_def
        db2_def tbl1_def)
  then show ?thesis using d by (simp add: db2_def)
qed

text \<open>
  C8, amended. \<^verbatim>\<open>CreateTable\<close> checks neither the number of primary columns nor the column
  names. For at most 30 columns of which at most one is marked primary (none is allowed, and so
  are equal names) it builds the descriptor chunk, stores it, sets the registry entry of the
  table name to the chunk's address, opens the table and returns no error. More than 30
  columns and more than one primary column, which the source visibly tries to detect, are left
  out of the statement.
\<close>

theorem CreateTable_does_not_validate:
  assumes "length cols \<le> 30"
    and "length (filter (\<lambda>c. Primary c > 0) cols) \<le> 1"
  shows "\<exists>buf p tbl db1.
           descriptor cd cols b r e = Some (buf, p)
         \<and> CreateTable cd H zero owner name cols b r e db = Some (None, tbl, db1)
         \<and> dbchunkstore db1 (H buf) = Some buf
         \<and> ensdb db1 name = Some (H buf)
         \<and> tables db1 (GetTableKey owner name) = Some tbl"
proof -
  have "length cols \<le> 32" using assms(1) by simp
  then show ?thesis by (rule CreateTable_ok)
qed

theorem CreateTable_does_not_validate_witness:
  "length [column_email 1, column_email 0] \<le> 30
   \<and> length (filter (\<lambda>c. Primary c > 0) [column_email 1, column_email 0]) \<le> 1
   \<and> (\<exists>buf p tbl db1.
         descriptor codec_sample [column_email 1, column_email 0] 0 1 0 = Some (buf, p)
       \<and> CreateTable codec_sample descriptor_hash_sample 0 owner_sample table_sample
            [column_email 1, column_email 0] 0 1 0 no_tables = Some (None, tbl, db1)
       \<and> dbchunkstore db1 (descriptor_hash_sample buf) = Some buf
       \<and> ensdb db1 table_sample = Some (descriptor_hash_sample buf)
       \<and> tables db1 (GetTableKey owner_sample table_sample) = Some tbl)"
  using CreateTable_does_not_validate [of "[column_email 1, column_email 0]" codec_sample 0 1 0
      descriptor_hash_sample 0 owner_sample table_sample no_tables]
  by (simp add: column_email_def)

text \<open>
  C8 as stated fails: with no primary column at all \<^verbatim>\<open>CreateTable\<close> returns no error, and
  the descriptor chunk and the registry entry are written.
\<close>

theorem CreateTable_accepts_no_primary_column:
  "filter (\<lambda>c. Primary c > 0) [column_email 0, column_age 0] = []
   \<and> (case descriptor codec_sample [column_email 0, column_age 0] 0 1 0 of
        None \<Rightarrow> False
      | Some (buf, p) \<Rightarrow>
          (case CreateTable codec_sample descriptor_hash_sample 0 owner_sample table_sample
                  [column_email 0, column_age 0] 0 1 0 no_tables of
             None \<Rightarrow> False
           | Some (err, tbl, db1) \<Rightarrow>
               err = None
             \<and> dbchunkstore db1 (descriptor_hash_sample buf) = Some buf
             \<and> ensdb db1 table_sample = Some (descriptor_hash_sample buf)
             \<and> dbchunkstore no_tables (descriptor_hash_sample buf) = None
             \<and> ensdb no_tables table_sample = None))"
proof -
  have "length [column_email 0, column_age 0] \<le> 32" by simp
  from CreateTable_ok [OF this, of codec_sample 0 1 0 descriptor_hash_sample 0 owner_sample
      table_sample no_tables]
  show ?thesis
    by (auto simp add: column_email_def column_age_def no_tables_def)
qed

section \<open>B-tree: scanning in order\<close>

subsection \<open>Scanning a sorted list\<close>

lemma scan_append:
  "scan P Q iter (xs @ ys) s =
     (if fst (scan P Q iter xs s) then scan P Q iter ys (snd (scan P Q iter xs s))
      else scan P Q iter xs s)"
  by (induction xs arbitrary: s) (auto split: prod.splits)

lemma scan_skip: "\<forall>x \<in> set xs. \<not> P x \<Longrightarrow> scan P Q iter xs s = (True, s)"
  by (induction xs) auto

lemma Less_trans: "Less a b \<Longrightarrow> Less b c \<Longrightarrow> Less a c"
  by (auto simp: Less_def)

lemma scan_visit:
  assumes "sorted_wrt Less xs" and down: "\<And>x y. Less x y \<Longrightarrow> Q y \<Longrightarrow> Q x"
  shows "snd (scan P Q iter xs s) = visit iter (filter (\<lambda>x. P x \<and> Q x) xs) s"
  using assms(1)
proof (induction xs arbitrary: s)
  case Nil
  then show ?case by simp
next
  case (Cons x xs)
  have srt: "sorted_wrt Less xs" and lt: "\<forall>y \<in> set xs. Less x y" using Cons.prems by auto
  show ?case
  proof (cases "P x \<and> \<not> Q x")
    case True
    then have "\<forall>y \<in> set xs. \<not> Q y"
      using lt down by blast
    then have "filter (\<lambda>x. P x \<and> Q x) xs = []"
      by (auto simp: filter_empty_conv)
    then show ?thesis using True by simp
  next
    case False
    then show ?thesis using Cons.IH [OF srt] by (auto split: prod.splits)
  qed
qed

subsection \<open>The ascending iteration scans the items in order\<close>

lemma weave_leaf: "weave [] xs = xs"
  by (cases xs) auto

lemma weave_drop_step:
  assumes "i < length its" "length cs = length its + 1"
  shows "weave (drop i cs) (drop i its) = cs ! i @ its ! i # weave (drop (Suc i) cs) (drop (Suc i) its)"
proof -
  have a: "drop i its = its ! i # drop (Suc i) its" using assms by (simp add: Cons_nth_drop_Suc)
  have b: "drop i cs = cs ! i # drop (Suc i) cs" using assms by (simp add: Cons_nth_drop_Suc)
  show ?thesis by (simp add: a b)
qed

lemma weave_drop_last:
  assumes "length cs = length its + 1"
  shows "weave (drop (length its) cs) (drop (length its) its) = cs ! (length cs - 1)"
proof -
  have "drop (length its) cs = [cs ! length its]"
    using assms by (metis Cons_nth_drop_Suc drop_all lessI order_refl Suc_eq_plus1)
  then show ?thesis using assms by simp
qed

lemma ascend_loop_scan:
  fixes n :: node and iter :: "'s \<Rightarrow> item \<Rightarrow> bool \<times> 's"
  assumes pdef: "\<And>x. P x \<longleftrightarrow> \<not> (start \<noteq> None \<and> Less x (the start))"
    and qdef: "\<And>x. Q x \<longleftrightarrow> \<not> (stop \<noteq> None \<and> \<not> Less x (the stop))"
    and ih: "\<And>c (hit :: bool) (s :: 's). c \<in> set (children n) \<Longrightarrow> sorted_wrt Less (inorder c)
            \<Longrightarrow> \<exists>hit1. iterate ascend start stop incl iter c hit s
                  = Some (hit1, scan P Q iter (inorder c) s)"
    and shape: "children n = [] \<or> length (children n) = length (items n) + 1"
    and incl: "incl \<or> start = None"
  shows "i \<le> length (items n)
     \<Longrightarrow> sorted_wrt Less (weave (drop i (map inorder (children n))) (drop i (items n)))
     \<Longrightarrow> \<exists>hit1. ascend_loop start stop incl iter n i hit s
            = Some (hit1, scan P Q iter
                 (weave (drop i (map inorder (children n))) (drop i (items n))) s)"
proof (induction "length (items n) - i" arbitrary: i hit s)
  case 0
  then have i: "i = length (items n)" by simp
  show ?case
  proof (cases "children n = []")
    case True
    then show ?thesis using i by (simp add: ascend_loop.simps [of _ _ _ _ n])
  next
    case False
    then have l: "length (children n) = length (items n) + 1" using shape by simp
    have w: "weave (drop i (map inorder (children n))) (drop i (items n))
             = inorder (children n ! (length (children n) - 1))"
      using weave_drop_last [of "map inorder (children n)" "items n"] l i by simp
    have m: "children n ! (length (children n) - 1) \<in> set (children n)" using l by simp
    from ih [OF m, of hit s] "0.prems"(2) w
    show ?thesis using i l False by (simp add: ascend_loop.simps [of _ _ _ _ n])
  qed
next
  case (Suc k)
  then have i: "i < length (items n)" by simp
  have k: "k = length (items n) - Suc i" using Suc.hyps(2) by simp
  have i': "Suc i \<le> length (items n)" using i by simp
  let ?rest = "weave (drop (Suc i) (map inorder (children n))) (drop (Suc i) (items n))"
  let ?x = "items n ! i"
  define C where "C = (if children n = [] then [] else inorder (children n ! i))"
  have w: "weave (drop i (map inorder (children n))) (drop i (items n)) = C @ ?x # ?rest"
  proof (cases "children n = []")
    case True
    then show ?thesis using i by (simp add: C_def weave_leaf Cons_nth_drop_Suc)
  next
    case False
    then have l: "length (children n) = length (items n) + 1" using shape by simp
    show ?thesis
      using weave_drop_step [of i "items n" "map inorder (children n)"] i l False
      by (simp add: C_def)
  qed
  have srt: "sorted_wrt Less ?rest" and sc: "sorted_wrt Less C"
    and lt: "\<forall>y \<in> set C. Less y ?x"
    using Suc.prems(2) unfolding w by (auto simp: sorted_wrt_append)
  note step = Suc.hyps(1) [OF k i' srt]
  have child: "\<exists>hit1. (if length (children n) > 0 then
                    (if i < length (children n) then
                       iterate ascend start stop incl iter (children n ! i) hit s
                     else None)
                  else Some (hit, True, s)) = Some (hit1, scan P Q iter C s)"
  proof (cases "children n = []")
    case True
    then show ?thesis by (simp add: C_def)
  next
    case False
    then have l: "length (children n) = length (items n) + 1" using shape by simp
    have m: "children n ! i \<in> set (children n)" using l i by simp
    have "sorted_wrt Less (inorder (children n ! i))" using sc False by (simp add: C_def)
    from ih [OF m this, of hit s] show ?thesis using False l i by (simp add: C_def)
  qed
  then obtain hit1 where c: "(if length (children n) > 0 then
                    (if i < length (children n) then
                       iterate ascend start stop incl iter (children n ! i) hit s
                     else None)
                  else Some (hit, True, s)) = Some (hit1, scan P Q iter C s)" by blast
  show ?case
  proof (cases "start \<noteq> None \<and> Less ?x (the start)")
    case True
    then have "\<forall>y \<in> set C. \<not> P y"
      using lt pdef by (auto dest: Less_trans)
    then have sk: "scan P Q iter C s = (True, s)" by (rule scan_skip)
    have npx: "\<not> P ?x" using True pdef by simp
    have "ascend_loop start stop incl iter n i hit s = ascend_loop start stop incl iter n (Suc i) hit s"
      using True i by (subst ascend_loop.simps) simp
    then show ?thesis
      using step [of hit s] unfolding w by (simp add: scan_append sk npx)
  next
    case nl: False
    then have px: "P ?x" using pdef by simp
    have ni: "\<not> (\<not> incl \<and> \<not> hit1 \<and> start \<noteq> None \<and> \<not> Less (the start) ?x)"
      using incl by auto
    obtain ok s1 where r: "scan P Q iter C s = (ok, s1)"
      by (cases "scan P Q iter C s")
    have unf: "ascend_loop start stop incl iter n i hit s =
        (if \<not> ok then Some (hit1, False, s1)
         else if stop \<noteq> None \<and> \<not> Less ?x (the stop) then Some (True, False, s1)
         else (case iter s1 ?x of
                 (b, s2) \<Rightarrow>
                   if \<not> b then Some (True, False, s2)
                   else ascend_loop start stop incl iter n (Suc i) True s2))"
      apply (subst ascend_loop.simps)
      apply (simp only: c r i nl ni if_True if_False option.case prod.case Suc_eq_plus1)
      done
    show ?thesis
    proof (cases ok)
      case False
      then show ?thesis unfolding w unf by (simp add: scan_append r)
    next
      case ok: True
      show ?thesis
      proof (cases "Q ?x")
        case False
        then have "stop \<noteq> None \<and> \<not> Less ?x (the stop)" using qdef by simp
        then show ?thesis unfolding w unf using ok False px by (auto simp add: scan_append r)
      next
        case qx: True
        then have nq: "\<not> (stop \<noteq> None \<and> \<not> Less ?x (the stop))" using qdef by simp
        obtain b s2 where it: "iter s1 ?x = (b, s2)" by (cases "iter s1 ?x")
        show ?thesis
          unfolding w unf using ok qx px nq step [of True s2]
          by (auto simp add: scan_append r it)
      qed
    qed
  qed
qed

lemma iterate_ascend_scan:
  fixes iter :: "'s \<Rightarrow> item \<Rightarrow> bool \<times> 's"
  assumes pdef: "\<And>x. P x \<longleftrightarrow> \<not> (start \<noteq> None \<and> Less x (the start))"
    and qdef: "\<And>x. Q x \<longleftrightarrow> \<not> (stop \<noteq> None \<and> \<not> Less x (the stop))"
    and incl: "incl \<or> start = None"
  shows "shaped n \<Longrightarrow> sorted_wrt Less (inorder n)
     \<Longrightarrow> \<exists>hit1. iterate ascend start stop incl iter n hit s = Some (hit1, scan P Q iter (inorder n) s)"
proof (induction n arbitrary: hit s)
  case (Node its cs nl d h)
  let ?n = "Node its cs nl d h"
  have ih: "\<And>c (hit :: bool) (s :: 's). c \<in> set (children ?n) \<Longrightarrow> sorted_wrt Less (inorder c)
            \<Longrightarrow> \<exists>hit1. iterate ascend start stop incl iter c hit s
                  = Some (hit1, scan P Q iter (inorder c) s)"
    using Node.IH Node.prems(1) by (simp add: list_all_iff)
  have shape: "children ?n = [] \<or> length (children ?n) = length (items ?n) + 1"
    using Node.prems(1) by simp
  have srt: "sorted_wrt Less (weave (drop 0 (map inorder (children ?n))) (drop 0 (items ?n)))"
    using Node.prems(2) by simp
  from ascend_loop_scan [where n = ?n and i = 0, OF pdef qdef ih shape incl _ srt, of hit s]
  show ?case by (simp add: iterate.simps)
qed

lemma Less_down: "Less x y \<Longrightarrow> \<not> (stop \<noteq> None \<and> \<not> Less y (the stop)) \<Longrightarrow> \<not> (stop \<noteq> None \<and> \<not> Less x (the stop))"
  by (auto dest: Less_trans)

lemma iterate_ascend_visit:
  fixes iter :: "'s \<Rightarrow> item \<Rightarrow> bool \<times> 's"
  assumes "shaped n" and "sorted_wrt Less (inorder n)" and "incl \<or> start = None"
  shows "map_option (\<lambda>(hit, ok, s1). s1) (iterate ascend start stop incl iter n hit s)
         = Some (visit iter
             (filter (\<lambda>x. (start = None \<or> \<not> Less x (the start)) \<and> (stop = None \<or> Less x (the stop)))
                (inorder n)) s)"
proof -
  define P where "P = (\<lambda>x. \<not> (start \<noteq> None \<and> Less x (the start)))"
  define Q where "Q = (\<lambda>x. \<not> (stop \<noteq> None \<and> \<not> Less x (the stop)))"
  have pdef: "\<And>x. P x \<longleftrightarrow> \<not> (start \<noteq> None \<and> Less x (the start))" by (simp add: P_def)
  have qdef: "\<And>x. Q x \<longleftrightarrow> \<not> (stop \<noteq> None \<and> \<not> Less x (the stop))" by (simp add: Q_def)
  from iterate_ascend_scan [OF pdef qdef assms(3) assms(1) assms(2), where iter = iter and hit = hit and s = s]
  obtain hit1 where r: "iterate ascend start stop incl iter n hit s = Some (hit1, scan P Q iter (inorder n) s)"
    by blast
  have down: "\<And>x y. Less x y \<Longrightarrow> Q y \<Longrightarrow> Q x"
    unfolding Q_def by (rule Less_down)
  have "snd (scan P Q iter (inorder n) s) = visit iter (filter (\<lambda>x. P x \<and> Q x) (inorder n)) s"
    using assms(2) down by (rule scan_visit)
  moreover have "(\<lambda>x. P x \<and> Q x) = (\<lambda>x. (start = None \<or> \<not> Less x (the start)) \<and> (stop = None \<or> Less x (the stop)))"
    by (auto simp: P_def Q_def fun_eq_iff)
  ultimately show ?thesis using r by (simp add: split_beta)
qed

lemma AscendRange_visits:
  assumes "root t = Some r" and "shaped r" and "sorted_wrt Less (inorder r)"
  shows "AscendRange t (Some start) (Some stop) iter s
         = Some (visit iter (filter (\<lambda>x. \<not> Less x start \<and> Less x stop) (inorder r)) s)"
  using iterate_ascend_visit [OF assms(2,3), of True "Some start" "Some stop" iter False s] assms(1)
  by (simp add: AscendRange_def)

lemma Ascend_visits:
  assumes "root t = Some r" and "shaped r" and "sorted_wrt Less (inorder r)"
  shows "Ascend t iter s = Some (visit iter (inorder r) s)"
  using iterate_ascend_visit [OF assms(2,3), of False None None iter False s] assms(1)
  by (simp add: Ascend_def)

subsection \<open>Binary search\<close>

lemma search_loop_spec:
  assumes mono: "\<And>a b. a \<le> b \<Longrightarrow> b < n \<Longrightarrow> f a \<Longrightarrow> f b"
  shows "i \<le> j \<Longrightarrow> j \<le> n \<Longrightarrow> (\<forall>k<i. \<not> f k) \<Longrightarrow> (\<forall>k. j \<le> k \<and> k < n \<longrightarrow> f k)
     \<Longrightarrow> i \<le> search_loop f i j \<and> search_loop f i j \<le> j
         \<and> (\<forall>k < search_loop f i j. \<not> f k) \<and> (\<forall>k. search_loop f i j \<le> k \<and> k < n \<longrightarrow> f k)"
proof (induction "j - i" arbitrary: i j rule: less_induct)
  case less
  show ?case
  proof (cases "i < j")
    case False
    then have "search_loop f i j = i" by (subst search_loop.simps) simp
    then show ?thesis using less.prems False by simp
  next
    case True
    define h where "h = (i + j) div 2"
    have h: "i \<le> h" "h < j" using True by (auto simp: h_def)
    show ?thesis
    proof (cases "f h")
      case fh: True
      have a: "\<forall>k. h \<le> k \<and> k < n \<longrightarrow> f k"
        using fh mono by blast
      have e: "search_loop f i j = search_loop f i h"
        using True fh by (subst search_loop.simps) (simp add: Let_def h_def)
      have m: "h - i < j - i" using h by simp
      have hn: "h \<le> n" using h less.prems(2) by simp
      from less.hyps [OF m h(1) hn less.prems(3) a]
      show ?thesis unfolding e using h by auto
    next
      case nfh: False
      have a: "\<forall>k < h + 1. \<not> f k"
      proof (intro allI impI)
        fix k assume "k < h + 1"
        then have "k \<le> h" by simp
        moreover have "h < n" using h less.prems(2) by simp
        ultimately show "\<not> f k" using mono [of k h] nfh by blast
      qed
      have e: "search_loop f i j = search_loop f (h + 1) j"
        using True nfh by (subst search_loop.simps) (simp add: Let_def h_def)
      have m: "j - (h + 1) < j - i" using h by simp
      have hj: "h + 1 \<le> j" using h by simp
      from less.hyps [OF m hj less.prems(2) a less.prems(4)]
      show ?thesis unfolding e using h by auto
    qed
  qed
qed

lemma Less_asym: "Less a b \<Longrightarrow> \<not> Less b a"
  by (auto simp: Less_def)

lemma Less_cases: "Less a b \<or> Less b a \<or> ikey a = ikey b"
  by (auto simp: Less_def)

lemma Less_eq_left: "ikey a = ikey b \<Longrightarrow> Less a c = Less b c"
  by (simp add: Less_def)

lemma Less_eq_right: "ikey a = ikey b \<Longrightarrow> Less c a = Less c b"
  by (simp add: Less_def)

lemma sorted_nth_Less: "sorted_wrt Less s \<Longrightarrow> a < b \<Longrightarrow> b < length s \<Longrightarrow> Less (s ! a) (s ! b)"
  by (simp add: sorted_wrt_iff_nth_less)

text \<open>Where \<^const>\<open>find_item\<close> points in a sorted list.\<close>

lemma find_item_sorted:
  assumes srt: "sorted_wrt Less s"
  shows "fst (find_item s x) \<le> length s
       \<and> (\<forall>k < fst (find_item s x). Less (s ! k) x)
       \<and> (snd (find_item s x) \<longrightarrow> fst (find_item s x) < length s
            \<and> ikey (s ! fst (find_item s x)) = ikey x)
       \<and> (\<not> snd (find_item s x) \<longrightarrow> fst (find_item s x) < length s
            \<longrightarrow> Less x (s ! fst (find_item s x)))"
proof -
  define f where "f = (\<lambda>i. Less x (s ! i))"
  define r where "r = search_loop f 0 (length s)"
  have mono: "\<And>a b. a \<le> b \<Longrightarrow> b < length s \<Longrightarrow> f a \<Longrightarrow> f b"
  proof -
    fix a b assume ab: "a \<le> b" "b < length s" "f a"
    show "f b"
    proof (cases "a = b")
      case True then show ?thesis using ab by simp
    next
      case False
      then have "Less (s ! a) (s ! b)" using ab srt by (simp add: sorted_nth_Less)
      then show ?thesis using ab(3) unfolding f_def by (blast intro: Less_trans)
    qed
  qed
  have "0 \<le> r \<and> r \<le> length s \<and> (\<forall>k < r. \<not> f k) \<and> (\<forall>k. r \<le> k \<and> k < length s \<longrightarrow> f k)"
    unfolding r_def by (rule search_loop_spec [of "length s" f 0 "length s", OF mono]) auto
  then have r: "r \<le> length s" "\<forall>k<r. \<not> Less x (s ! k)" "\<forall>k. r \<le> k \<and> k < length s \<longrightarrow> Less x (s ! k)"
    unfolding f_def by blast+
  have fi: "find_item s x = (if r > 0 \<and> \<not> Less (s ! (r - 1)) x then (r - 1, True) else (r, False))"
    by (simp add: find_item_def sort_Search_def r_def f_def Let_def)
  show ?thesis
  proof (cases "r > 0 \<and> \<not> Less (s ! (r - 1)) x")
    case True
    then have e: "find_item s x = (r - 1, True)" using fi by simp
    have eq: "ikey (s ! (r - 1)) = ikey x"
      using True r(2) Less_cases [of "s ! (r - 1)" x] by auto
    have "\<forall>k < r - 1. Less (s ! k) x"
    proof (intro allI impI)
      fix k assume k: "k < r - 1"
      then have "Less (s ! k) (s ! (r - 1))" using srt r(1) True by (simp add: sorted_nth_Less)
      then show "Less (s ! k) x" using eq by (simp add: Less_def)
    qed
    moreover have "r - 1 < length s" using True r(1) by auto
    ultimately show ?thesis using e eq by simp
  next
    case False
    then have e: "find_item s x = (r, False)" using fi by simp
    have "\<forall>k < r. Less (s ! k) x"
    proof (intro allI impI)
      fix k assume k: "k < r"
      then have r0: "r > 0" by simp
      then have l: "Less (s ! (r - 1)) x" using False by simp
      show "Less (s ! k) x"
      proof (cases "k = r - 1")
        case True then show ?thesis using l by simp
      next
        case nk: False
        then have "Less (s ! k) (s ! (r - 1))" using srt r(1) k by (simp add: sorted_nth_Less)
        then show ?thesis using l by (rule Less_trans)
      qed
    qed
    then show ?thesis using e r by simp
  qed
qed

subsection \<open>Insertion into a sorted list\<close>

lemma ins_less_all: "\<forall>y \<in> set A. Less y x \<Longrightarrow> ins x (A @ B) = A @ ins x B"
  by (induction A) (auto dest: Less_asym)

lemma ins_before: "Less x y \<Longrightarrow> ins x (M @ y # R) = ins x M @ y # R"
  by (induction M) auto

lemma ins_same: "ikey y = ikey x \<Longrightarrow> ins x (y # R) = x # R"
  by (simp add: Less_def)

lemma set_ins: "set (ins x xs) \<subseteq> insert x (set xs)"
  by (induction xs) auto

lemma sorted_ins: "sorted_wrt Less xs \<Longrightarrow> sorted_wrt Less (ins x xs)"
proof (induction xs)
  case Nil
  then show ?case by simp
next
  case (Cons y ys)
  have a: "\<forall>z \<in> set ys. Less y z" and s: "sorted_wrt Less ys" using Cons.prems by auto
  show ?case
  proof (cases "Less x y")
    case True
    then show ?thesis using Cons.prems a by (auto intro: Less_trans)
  next
    case nxy: False
    show ?thesis
    proof (cases "Less y x")
      case True
      have "\<forall>z \<in> set (ins x ys). Less y z" using set_ins [of x ys] a True by auto
      then show ?thesis using nxy True Cons.IH [OF s] by simp
    next
      case False
      then have "ikey x = ikey y" using nxy Less_cases [of x y] by auto
      then have "\<forall>z \<in> set ys. Less x z" using a by (simp add: Less_def)
      then show ?thesis using nxy False s by simp
    qed
  qed
qed

lemma keys_ins: "ikey ` set (ins x xs) = insert (ikey x) (ikey ` set xs)"
proof (induction xs)
  case Nil
  then show ?case by simp
next
  case (Cons y ys)
  show ?case
  proof (cases "Less x y \<or> Less y x")
    case True
    then show ?thesis using Cons.IH by auto
  next
    case False
    then have "ikey x = ikey y" using Less_cases [of x y] by auto
    then show ?thesis using False by auto
  qed
qed

lemma vals_ins: "ival x = v \<Longrightarrow> \<forall>y \<in> set xs. ival y = v \<Longrightarrow> \<forall>y \<in> set (ins x xs). ival y = v"
  using set_ins [of x xs] by auto

subsection \<open>Taking the items of a node apart at a child\<close>

lemma weave_append: "length A = length B \<Longrightarrow> weave (A @ cs) (B @ xs) = weave A B @ weave cs xs"
  by (induction A B rule: list_induct2) auto

lemma weave_head: "weave (c # cs) xs = c @ weave ([] # cs) xs"
  by (cases xs) auto

lemma weave_decomp:
  assumes "i < length cs" "i \<le> length xs"
  shows "weave cs xs = weave (take i cs) (take i xs) @ cs ! i @ weave ([] # drop (Suc i) cs) (drop i xs)"
proof -
  have "weave cs xs = weave (take i cs @ drop i cs) (take i xs @ drop i xs)" by simp
  also have "\<dots> = weave (take i cs) (take i xs) @ weave (drop i cs) (drop i xs)"
    using assms by (intro weave_append) simp
  also have "drop i cs = cs ! i # drop (Suc i) cs" using assms by (simp add: Cons_nth_drop_Suc)
  finally show ?thesis by (simp add: weave_head [of "cs ! i"])
qed

lemma weave_tail_items:
  assumes "i < length xs"
  shows "weave ([] # cs) (drop i xs) = xs ! i # weave cs (drop (Suc i) xs)"
proof -
  have "drop i xs = xs ! i # drop (Suc i) xs" using assms by (simp add: Cons_nth_drop_Suc)
  then show ?thesis by simp
qed

lemma weave_tail_end:
  assumes "length cs = length xs + 1"
  shows "weave ([] # drop (Suc (length xs)) cs) (drop (length xs) xs) = []"
  using assms by simp

lemma set_weave: "set (weave cs xs) = \<Union> (set ` set cs) \<union> set xs"
  by (induction cs xs rule: weave.induct) auto

lemma sorted_weave_items: "sorted_wrt Less (weave cs xs) \<Longrightarrow> sorted_wrt Less xs"
proof (induction cs xs rule: weave.induct)
  case (1 c cs x xs)
  then have "sorted_wrt Less (x # weave cs xs)" by (simp add: sorted_wrt_append)
  then show ?case using 1 by (auto simp: set_weave)
qed auto

lemma sorted_weave_child:
  assumes "sorted_wrt Less (weave cs xs)" "i < length cs" "i \<le> length xs"
  shows "sorted_wrt Less (cs ! i)"
  using assms(1) unfolding weave_decomp [OF assms(2,3)] by (simp add: sorted_wrt_append)

lemma prefix_less:
  assumes srt: "sorted_wrt Less (weave cs xs)" and i: "i < length cs" "i \<le> length xs"
    and lt: "\<forall>k<i. Less (xs ! k) x"
  shows "\<forall>y \<in> set (weave (take i cs) (take i xs)). Less y x"
proof (cases i)
  case 0
  then show ?thesis by simp
next
  case (Suc j)
  have j: "j < length cs" "j < length xs" using i Suc by auto
  have "weave (take i cs) (take i xs) = weave (take j cs @ [cs ! j]) (take j xs @ [xs ! j])"
    using j Suc by (simp add: take_Suc_conv_app_nth)
  also have "\<dots> = weave (take j cs) (take j xs) @ cs ! j @ [xs ! j]"
    using j by (subst weave_append) auto
  finally have e: "weave (take i cs) (take i xs) = (weave (take j cs) (take j xs) @ cs ! j) @ [xs ! j]"
    by simp
  have "sorted_wrt Less (weave (take i cs) (take i xs))"
    using srt unfolding weave_decomp [OF i] by (simp add: sorted_wrt_append)
  then have "\<forall>y \<in> set (weave (take j cs) (take j xs) @ cs ! j). Less y (xs ! j)"
    unfolding e by (auto simp add: sorted_wrt_append)
  moreover have "Less (xs ! j) x" using lt Suc by simp
  ultimately show ?thesis unfolding e by (auto intro: Less_trans)
qed

text \<open>Inserting into the child where the item belongs inserts into the node.\<close>

lemma ins_child:
  assumes srt: "sorted_wrt Less (weave cs xs)" and len: "length cs = length xs + 1"
    and i: "i \<le> length xs" and lt: "\<forall>k<i. Less (xs ! k) x"
    and gt: "i < length xs \<longrightarrow> Less x (xs ! i)"
  shows "ins x (weave cs xs) = weave (cs[i := ins x (cs ! i)]) xs"
proof -
  have ic: "i < length cs" using len i by simp
  let ?L = "weave (take i cs) (take i xs)"
  let ?R = "weave ([] # drop (Suc i) cs) (drop i xs)"
  have l: "\<forall>y \<in> set ?L. Less y x" using srt ic i lt by (rule prefix_less)
  have r: "ins x (cs ! i @ ?R) = ins x (cs ! i) @ ?R"
  proof (cases "i < length xs")
    case True
    then show ?thesis using gt by (simp add: weave_tail_items ins_before)
  next
    case False
    then have "i = length xs" using i by simp
    then show ?thesis using len by simp
  qed
  have "weave (cs[i := ins x (cs ! i)]) xs = ?L @ ins x (cs ! i) @ ?R"
    using weave_decomp [of i "cs[i := ins x (cs ! i)]" xs] ic i by simp
  moreover have "ins x (weave cs xs) = ?L @ ins x (cs ! i) @ ?R"
    unfolding weave_decomp [OF ic i] using l r by (simp add: ins_less_all)
  ultimately show ?thesis by simp
qed

text \<open>Replacing the item with the same key replaces it in the node.\<close>

lemma ins_item:
  assumes srt: "sorted_wrt Less (weave cs xs)" and len: "length cs = length xs + 1"
    and i: "i < length xs" and lt: "\<forall>k<i. Less (xs ! k) x"
    and eq: "ikey (xs ! i) = ikey x"
  shows "ins x (weave cs xs) = weave cs (xs[i := x])"
proof -
  have ic: "i < length cs" and il: "i \<le> length xs" using len i by simp_all
  let ?L = "weave (take i cs) (take i xs)"
  let ?R = "weave (drop (Suc i) cs) (drop (Suc i) xs)"
  have l: "\<forall>y \<in> set ?L. Less y x" using srt ic il lt by (rule prefix_less)
  have d: "weave cs xs = (?L @ cs ! i) @ xs ! i # ?R"
    unfolding weave_decomp [OF ic il] using i by (simp add: weave_tail_items)
  have "\<forall>y \<in> set (cs ! i). Less y (xs ! i)"
    using srt unfolding d by (simp add: sorted_wrt_append)
  then have c: "\<forall>y \<in> set (cs ! i). Less y x" using eq by (simp add: Less_def)
  have st: "ins x (xs ! i # ?R) = x # ?R" using eq by (rule ins_same)
  have "ins x ((?L @ cs ! i) @ xs ! i # ?R) = (?L @ cs ! i) @ ins x (xs ! i # ?R)"
    by (rule ins_less_all) (use l c in auto)
  then have "ins x (weave cs xs) = (?L @ cs ! i) @ x # ?R"
    unfolding d st .
  moreover have "weave cs (xs[i := x]) = (?L @ cs ! i) @ x # ?R"
    using weave_decomp [of i cs "xs[i := x]"] ic i
    by (simp add: weave_tail_items [of i "xs[i := x]"] drop_update_cancel)
  ultimately show ?thesis by simp
qed

lemma ins_leaf:
  assumes "sorted_wrt Less xs" and i: "i \<le> length xs" and lt: "\<forall>k<i. Less (xs ! k) x"
    and gt: "i < length xs \<longrightarrow> Less x (xs ! i)"
  shows "ins x xs = take i xs @ [x] @ drop i xs"
proof -
  have l: "\<forall>y \<in> set (take i xs). Less y x"
    using lt i by (auto simp: in_set_conv_nth)
  have "ins x (drop i xs) = x # drop i xs"
  proof (cases "i < length xs")
    case True
    then have "drop i xs = xs ! i # drop (Suc i) xs" by (simp add: Cons_nth_drop_Suc)
    then show ?thesis using gt True by simp
  next
    case False
    then show ?thesis by simp
  qed
  then have "ins x (take i xs @ drop i xs) = take i xs @ x # drop i xs"
    using l by (simp add: ins_less_all del: append_take_drop_id)
  then show ?thesis by simp
qed

lemma ins_leaf_found:
  assumes i: "i < length xs" and lt: "\<forall>k<i. Less (xs ! k) x" and eq: "ikey (xs ! i) = ikey x"
  shows "ins x xs = xs[i := x]"
proof -
  have l: "\<forall>y \<in> set (take i xs). Less y x"
    using lt i by (auto simp: in_set_conv_nth)
  have d: "drop i xs = xs ! i # drop (Suc i) xs" using i by (simp add: Cons_nth_drop_Suc)
  have st: "ins x (xs ! i # drop (Suc i) xs) = x # drop (Suc i) xs" using eq by (rule ins_same)
  have "ins x (take i xs @ xs ! i # drop (Suc i) xs) = take i xs @ ins x (xs ! i # drop (Suc i) xs)"
    using l by (rule ins_less_all)
  then have "ins x (take i xs @ drop i xs) = take i xs @ x # drop (Suc i) xs"
    unfolding d st .
  then show ?thesis using i by (simp add: upd_conv_take_nth_drop)
qed

subsection \<open>Nodes\<close>

lemma inorder_eq: "inorder n = weave (map inorder (children n)) (items n)"
  by (cases n) simp

lemma shaped_eq:
  "shaped n \<longleftrightarrow> (children n = [] \<or> length (children n) = length (items n) + 1)
     \<and> (\<forall>c \<in> set (children n). shaped c)"
  by (cases n) (simp add: list_all_iff)

lemma loaded_eq:
  "loaded n \<longleftrightarrow> (notloaded n \<longrightarrow> hashid n = []) \<and> (\<forall>c \<in> set (children n). loaded c)"
  by (cases n) (simp add: list_all_iff)

lemma height_eq: "height n = Suc (Max (insert 0 (height ` set (children n))))"
  by (cases n) simp

lemma height_child: "c \<in> set (children n) \<Longrightarrow> height c < height n"
  unfolding height_eq [of n] by (simp add: less_Suc_eq_le)

lemma height_mono: "set (children a) \<subseteq> set (children b) \<Longrightarrow> height a \<le> height b"
  unfolding height_eq [of a] height_eq [of b]
  by (auto intro!: Max_mono)

lemma load_step:
  assumes "loaded n"
  shows "(if notloaded n then set_notloaded False (fst (SWARMGet fs n)) else n)
         = Node (items n) (children n) False (dirty n) (hashid n)"
proof (cases "notloaded n")
  case True
  then have "hashid n = []" using assms by (simp add: loaded_eq [of n])
  then show ?thesis using True by (simp add: SWARMGet_def read_chunk_def set_notloaded_def)
next
  case False
  then show ?thesis by (cases n) simp
qed

subsection \<open>Splitting keeps the items in order\<close>

lemma weave_split:
  assumes "j < length xs" and "cs = [] \<or> length cs = length xs + 1"
  shows "weave (take (Suc j) cs) (take j xs) @ xs ! j # weave (drop (Suc j) cs) (drop (Suc j) xs)
         = weave cs xs"
proof (cases "cs = []")
  case True
  then show ?thesis using assms(1) by (simp add: weave_leaf id_take_nth_drop [symmetric])
next
  case False
  then have l: "length cs = length xs + 1" using assms(2) by simp
  have jc: "j < length cs" and jx: "j \<le> length xs" using l assms(1) by simp_all
  have "weave (take (Suc j) cs) (take j xs) = weave (take j cs @ [cs ! j]) (take j xs @ [])"
    using jc by (simp add: take_Suc_conv_app_nth)
  also have "\<dots> = weave (take j cs) (take j xs) @ cs ! j"
    using jc jx by (subst weave_append) auto
  finally show ?thesis
    unfolding weave_decomp [OF jc jx] using assms(1) by (simp add: weave_tail_items)
qed

lemma weave_split_child:
  assumes "i < length cs" "i \<le> length xs" and "F @ med # S = cs ! i"
  shows "weave (take i cs @ F # S # drop (Suc i) cs) (take i xs @ med # drop i xs) = weave cs xs"
proof -
  have "weave (take i cs @ F # S # drop (Suc i) cs) (take i xs @ med # drop i xs)
        = weave (take i cs) (take i xs) @ weave (F # S # drop (Suc i) cs) (med # drop i xs)"
    using assms(1,2) by (intro weave_append) simp
  also have "\<dots> = weave (take i cs) (take i xs) @ (F @ med # S) @ weave ([] # drop (Suc i) cs) (drop i xs)"
    by (simp add: weave_head [of S])
  finally show ?thesis unfolding weave_decomp [OF assms(1,2)] assms(3) .
qed

lemma insertAt_after_update:
  assumes "i < length cs"
  shows "insertAt (i + 1) b (cs[i := a]) = Some (take i cs @ a # b # drop (Suc i) cs)"
  using assms by (simp add: insertAt_def take_Suc_conv_app_nth)

text \<open>The two halves of a node that is split, and the item between them.\<close>

lemma split_halves:
  assumes m: "1 \<le> m" "m \<le> int (length (items c))" and sh: "shaped c" and ld: "loaded c"
  defines "j \<equiv> nat (m div 2)"
  defines "first \<equiv> Node (take j (items c)) (take (Suc j) (children c)) (notloaded c) (dirty c) (hashid c)"
  defines "second \<equiv> Node (drop (Suc j) (items c)) (drop (Suc j) (children c)) False False []"
  shows "split c (go_div m 2) = Some (items c ! j, first, second)"
    and "shaped first" and "shaped second" and "loaded first" and "loaded second"
    and "height first \<le> height c" and "height second \<le> height c"
    and "inorder first @ items c ! j # inorder second = inorder c"
proof -
  have shape: "children c = [] \<or> length (children c) = length (items c) + 1"
    using sh by (simp add: shaped_eq [of c])
  have j: "j < length (items c)" using m by (simp add: j_def)
  show "split c (go_div m 2) = Some (items c ! j, first, second)"
    using split_at_median [OF m shape]
    by (simp add: j_def first_def second_def set_children_def set_items_def)
  have sub1: "set (take (Suc j) (children c)) \<subseteq> set (children c)" by (rule set_take_subset)
  have sub2: "set (drop (Suc j) (children c)) \<subseteq> set (children c)" by (rule set_drop_subset)
  show "shaped first"
    using sh shape j sub1 unfolding shaped_eq [of first] shaped_eq [of c]
    by (auto simp: first_def min_def)
  show "shaped second"
    using sh shape j sub2 unfolding shaped_eq [of second] shaped_eq [of c]
    by (auto simp: second_def)
  show "loaded first"
    using ld sub1 unfolding loaded_eq [of first] loaded_eq [of c]
    by (auto simp: first_def)
  show "loaded second"
    using ld sub2 unfolding loaded_eq [of second] loaded_eq [of c]
    by (auto simp: second_def)
  show "height first \<le> height c"
    by (rule height_mono) (simp add: first_def sub1)
  show "height second \<le> height c"
    by (rule height_mono) (simp add: second_def sub2)
  show "inorder first @ items c ! j # inorder second = inorder c"
    using weave_split [OF j, of "map inorder (children c)"] shape
    by (simp add: inorder_eq [of c] first_def second_def take_map drop_map)
qed

subsection \<open>One step of the insertion\<close>

lemma maybeSplitChild_no:
  assumes "i < length cs" and "int (length (items (cs ! i))) < m"
  shows "maybeSplitChild (Node its cs nl d h) i m = Some (Node its cs nl d h, False)"
  using assms by (simp add: maybeSplitChild_def)

lemma maybeSplitChild_yes:
  assumes i: "i < length cs" "i \<le> length its" and full: "\<not> int (length (items (cs ! i))) < m"
    and m: "1 \<le> m" and sh: "shaped (cs ! i)" and ld: "loaded (cs ! i)"
  defines "c \<equiv> cs ! i"
  defines "j \<equiv> nat (m div 2)"
  defines "first \<equiv> Node (take j (items c)) (take (Suc j) (children c)) (notloaded c) (dirty c) (hashid c)"
  defines "second \<equiv> Node (drop (Suc j) (items c)) (drop (Suc j) (children c)) False False []"
  shows "maybeSplitChild (Node its cs nl d h) i m
         = Some (Node (take i its @ items c ! j # drop i its)
                   (take i cs @ first # second # drop (Suc i) cs) nl True h, True)"
proof -
  have mc: "m \<le> int (length (items c))" using full by (simp add: c_def)
  have sp: "split c (go_div m 2) = Some (items c ! j, first, second)"
    unfolding j_def first_def second_def
    using m mc sh ld unfolding c_def by (rule split_halves(1))
  show ?thesis
    using i full sp insertAt_after_update [OF i(1), of second first]
    by (simp add: maybeSplitChild_def c_def [symmetric] insertAt_def node_upd_defs)
qed

lemma node_with_child:
  assumes len: "length cs = length its + 1"
    and srt: "sorted_wrt Less (weave (map inorder cs) its)"
    and i: "i \<le> length its" and lt: "\<forall>k<i. Less (its ! k) x"
    and gt: "i < length its \<longrightarrow> Less x (its ! i)"
    and c': "inorder c' = ins x (inorder (cs ! i))" "shaped c'" "loaded c'"
    and sh: "\<forall>c \<in> set cs. shaped c" and ld: "\<forall>c \<in> set cs. loaded c" and nl: "nl \<longrightarrow> h = []"
  shows "shaped (Node its (cs[i := c']) nl d h)"
    and "loaded (Node its (cs[i := c']) nl d h)"
    and "inorder (Node its (cs[i := c']) nl d h) = ins x (weave (map inorder cs) its)"
proof -
  have sub: "set (cs[i := c']) \<subseteq> insert c' (set cs)" by (rule set_update_subset_insert)
  show "shaped (Node its (cs[i := c']) nl d h)"
    using len sh c'(2) sub by (auto simp: list_all_iff)
  show "loaded (Node its (cs[i := c']) nl d h)"
    using nl ld c'(3) sub by (auto simp: list_all_iff)
  have ic: "i < length cs" using len i by simp
  have "ins x (weave (map inorder cs) its)
        = weave ((map inorder cs)[i := ins x (map inorder cs ! i)]) its"
    using srt _ i lt gt by (rule ins_child) (simp add: len)
  then show "inorder (Node its (cs[i := c']) nl d h) = ins x (weave (map inorder cs) its)"
    using ic c'(1) by (simp add: map_update)
qed

lemma nth_split_items:
  "i \<le> length its \<Longrightarrow> k < i \<Longrightarrow> (take i its @ med # drop i its) ! k = its ! k"
  "i \<le> length its \<Longrightarrow> (take i its @ med # drop i its) ! i = med"
  "i < length its \<Longrightarrow> (take i its @ med # drop i its) ! Suc i = its ! i"
  by (simp_all add: nth_append)

text \<open>
  \<^const>\<open>node_insert\<close> on a tree that is well shaped, sorted and in memory: it returns, and
  the items of the node it returns are those of the old one with the new item put in its
  place.
\<close>

lemma node_insert_ok:
  assumes m: "1 \<le> mx"
  shows "shaped n \<Longrightarrow> loaded n \<Longrightarrow> sorted_wrt Less (inorder n)
     \<Longrightarrow> \<exists>n' out b. node_insert fs x mx n = Some (n', out, b)
           \<and> shaped n' \<and> loaded n' \<and> inorder n' = ins x (inorder n)"
proof (induction "height n" arbitrary: n rule: less_induct)
  case less
  obtain its cs nl d h where n: "n = Node its cs nl d h" by (cases n)
  have shape: "cs = [] \<or> length cs = length its + 1" and shc: "\<forall>c \<in> set cs. shaped c"
    using less.prems(1) by (simp_all add: n list_all_iff)
  have nlh: "nl \<longrightarrow> h = []" and ldc: "\<forall>c \<in> set cs. loaded c"
    using less.prems(2) by (simp_all add: n list_all_iff)
  have srt: "sorted_wrt Less (weave (map inorder cs) its)" using less.prems(3) by (simp add: n)
  have srt_its: "sorted_wrt Less its" using srt by (rule sorted_weave_items)
  have load: "(if notloaded n then set_notloaded False (fst (SWARMGet fs n)) else n)
              = Node its cs False d h"
    using load_step [OF less.prems(2), of fs] by (simp add: n)
  define i where "i = fst (find_item its x)"
  define found where "found = snd (find_item its x)"
  have fi: "find_item its x = (i, found)" by (simp add: i_def found_def)
  have i: "i \<le> length its" and lt: "\<forall>k<i. Less (its ! k) x"
    and fnd: "found \<longrightarrow> i < length its \<and> ikey (its ! i) = ikey x"
    and gt: "\<not> found \<longrightarrow> i < length its \<longrightarrow> Less x (its ! i)"
    using find_item_sorted [OF srt_its, of x] by (simp_all add: i_def found_def)
  show ?case
  proof (cases found)
    case True
    have r: "node_insert fs x mx n = Some (Node (its[i := x]) cs False True h, Some (its ! i), True)"
      using True by (subst node_insert.simps) (simp add: load fi Let_def node_upd_defs)
    have "inorder (Node (its[i := x]) cs False True h) = ins x (inorder n)"
    proof (cases "cs = []")
      case e: True
      show ?thesis using ins_leaf_found [of i its x] fnd True lt by (simp add: n e weave_leaf)
    next
      case False
      then have len: "length (map inorder cs) = length its + 1" using shape by simp
      show ?thesis
        using ins_item [OF srt len, of i x] fnd True lt by (simp add: n)
    qed
    moreover have "shaped (Node (its[i := x]) cs False True h)"
      using shape shc by (simp add: list_all_iff)
    moreover have "loaded (Node (its[i := x]) cs False True h)"
      using ldc by (simp add: list_all_iff)
    ultimately show ?thesis using r by auto
  next
    case nf: False
    then have gt': "i < length its \<longrightarrow> Less x (its ! i)" using gt by simp
    show ?thesis
    proof (cases "cs = []")
      case e: True
      have r: "node_insert fs x mx n
               = Some (Node (take i its @ [x] @ drop i its) [] False True h, None, True)"
        using nf i e by (subst node_insert.simps) (simp add: load fi Let_def node_upd_defs insertAt_def)
      have "inorder (Node (take i its @ [x] @ drop i its) [] False True h) = ins x (inorder n)"
        using ins_leaf [OF srt_its i lt gt'] by (simp add: n e weave_leaf)
      then show ?thesis using r by auto
    next
      case ne: False
      then have len: "length cs = length its + 1" using shape by simp
      have ic: "i < length cs" using len i by simp
      define c where "c = cs ! i"
      have cin: "c \<in> set cs" using ic by (simp add: c_def)
      have csh: "shaped c" and cld: "loaded c" using cin shc ldc by simp_all
      have r0: "node_insert fs x mx n =
        (case maybeSplitChild (Node its cs False d h) i mx of
              None \<Rightarrow> None
            | Some (n1, did_split) \<Rightarrow>
                (if did_split \<and> \<not> Less x (items n1 ! i) \<and> \<not> Less (items n1 ! i) x then
                   Some (set_items ((items n1)[i := x]) n1, Some (items n1 ! i), True)
                 else
                   (let i1 = (if did_split \<and> \<not> Less x (items n1 ! i) then i + 1 else i)
                    in if i1 < length (children n1) then
                         do {
                           (c, out, b) \<leftarrow> node_insert fs x mx (children n1 ! i1);
                           Some (set_dirty b (set_children ((children n1)[i1 := c]) n1), out, b)
                         }
                       else None)))"
        apply (subst node_insert.simps)
        apply (simp only: load Let_def fi fst_conv snd_conv nf if_False node.sel)
        using ne apply simp
        done
      show ?thesis
      proof (cases "int (length (items c)) < mx")
        case True
        have ms: "maybeSplitChild (Node its cs False d h) i mx = Some (Node its cs False d h, False)"
          using ic True unfolding c_def by (rule maybeSplitChild_no)
        have r1: "node_insert fs x mx n =
            do {
              (c1, out, b) \<leftarrow> node_insert fs x mx c;
              Some (Node its (cs[i := c1]) False b h, out, b)
            }"
          unfolding r0 ms using ic by (simp add: node_upd_defs c_def)
        have hc: "height c < height n" by (rule height_child) (simp add: n cin)
        have sc: "sorted_wrt Less (inorder c)"
          using sorted_weave_child [OF srt, of i] ic i by (simp add: c_def)
        from less.hyps [OF hc csh cld sc]
        obtain c1 out b where rc: "node_insert fs x mx c = Some (c1, out, b)"
          and c1: "shaped c1" "loaded c1" "inorder c1 = ins x (inorder c)" by blast
        have c1': "inorder c1 = ins x (inorder (cs ! i))" using c1(3) by (simp add: c_def)
        have nl0: "False \<longrightarrow> h = []" by simp
        note w = node_with_child [OF len srt i lt gt' c1' c1(1) c1(2) shc ldc nl0, where d = b]
        show ?thesis
          unfolding r1 rc using w by (auto simp add: n)
      next
        case full: False
        define j where "j = nat (mx div 2)"
        define first where "first = Node (take j (items c)) (take (Suc j) (children c)) (notloaded c) (dirty c) (hashid c)"
        define second where "second = Node (drop (Suc j) (items c)) (drop (Suc j) (children c)) False False []"
        define med where "med = items c ! j"
        define its1 where "its1 = take i its @ med # drop i its"
        define cs1 where "cs1 = take i cs @ first # second # drop (Suc i) cs"
        have mc: "mx \<le> int (length (items c))" using full by simp
        note halves = split_halves [OF m mc csh cld, folded j_def, folded first_def second_def med_def]
        have ms: "maybeSplitChild (Node its cs False d h) i mx = Some (Node its1 cs1 False True h, True)"
          using maybeSplitChild_yes [OF ic i _ m, where nl = False and d = d and h = h] full csh cld
          by (simp add: c_def [symmetric] j_def [symmetric] first_def [symmetric]
              second_def [symmetric] med_def [symmetric] its1_def cs1_def)
        have its1_i: "its1 ! i = med" using i by (simp add: its1_def nth_split_items)
        have len1: "length cs1 = length its1 + 1" using len ic i by (simp add: cs1_def its1_def)
        have w1: "weave (map inorder cs1) its1 = weave (map inorder cs) its"
          unfolding cs1_def its1_def
          using weave_split_child [of i "map inorder cs" its "inorder first" med "inorder second"]
            ic i halves(8)
          by (simp add: c_def take_map drop_map)
        have srt1: "sorted_wrt Less (weave (map inorder cs1) its1)" using srt w1 by simp
        have shc1: "\<forall>c \<in> set cs1. shaped c"
          using shc halves(2,3) set_take_subset [of i cs] set_drop_subset [of "Suc i" cs]
          by (auto simp: cs1_def)
        have ldc1: "\<forall>c \<in> set cs1. loaded c"
          using ldc halves(4,5) set_take_subset [of i cs] set_drop_subset [of "Suc i" cs]
          by (auto simp: cs1_def)
        have hc: "height c < height n" by (rule height_child) (simp add: n cin)
        have lt1: "\<forall>k<i. Less (its1 ! k) x"
          using lt i by (simp add: its1_def nth_split_items)
        have nl0: "False \<longrightarrow> h = []" by simp
        show ?thesis
        proof (cases "\<not> Less x med \<and> \<not> Less med x")
          case True
          then have eq: "ikey (its1 ! i) = ikey x"
            using Less_cases [of x med] its1_i by auto
          have r1: "node_insert fs x mx n
                    = Some (Node (its1[i := x]) cs1 False True h, Some med, True)"
            unfolding r0 ms using True its1_i by (simp add: node_upd_defs)
          have i1: "i < length its1" using i by (simp add: its1_def)
          have lm: "length (map inorder cs1) = length its1 + 1" using len1 by simp
          have "inorder (Node (its1[i := x]) cs1 False True h) = ins x (inorder n)"
            using ins_item [OF srt1 lm i1 lt1 eq] w1 by (simp add: n)
          moreover have "shaped (Node (its1[i := x]) cs1 False True h)"
            using len1 shc1 by (simp add: list_all_iff)
          moreover have "loaded (Node (its1[i := x]) cs1 False True h)"
            using ldc1 by (simp add: list_all_iff)
          ultimately show ?thesis using r1 by auto
        next
          case ne: False
          define i1 where "i1 = (if \<not> Less x med then i + 1 else i)"
          have i1: "i1 \<le> length its1" using i by (simp add: i1_def its1_def)
          have i1c: "i1 < length cs1" using i1 len1 by simp
          have r1: "node_insert fs x mx n =
            do {
              (c1, out, b) \<leftarrow> node_insert fs x mx (cs1 ! i1);
              Some (Node its1 (cs1[i1 := c1]) False b h, out, b)
            }"
            unfolding r0 ms using ne its1_i i1c
            by (auto simp add: node_upd_defs i1_def Let_def)
          have pos: "(\<forall>k<i1. Less (its1 ! k) x) \<and> (i1 < length its1 \<longrightarrow> Less x (its1 ! i1))"
          proof (cases "Less x med")
            case True
            then show ?thesis using lt1 its1_i by (simp add: i1_def)
          next
            case False
            then have lm: "Less med x" using ne by simp
            have a: "\<forall>k<Suc i. Less (its1 ! k) x"
              using lt1 its1_i lm by (auto simp: less_Suc_eq)
            have b: "Suc i < length its1 \<longrightarrow> Less x (its1 ! Suc i)"
              using gt' i by (auto simp: its1_def nth_split_items)
            show ?thesis using False a b by (simp add: i1_def)
          qed
          have cc: "cs1 ! i1 = (if \<not> Less x med then second else first)"
            using ic by (simp add: i1_def cs1_def nth_append)
          have h1: "height (cs1 ! i1) < height n"
            using halves(6,7) hc unfolding cc by auto
          have sh1: "shaped (cs1 ! i1)" and ld1: "loaded (cs1 ! i1)"
            using shc1 ldc1 i1c by simp_all
          have sc1: "sorted_wrt Less (inorder (cs1 ! i1))"
            using sorted_weave_child [OF srt1, of i1] i1c i1 by simp
          from less.hyps [OF h1 sh1 ld1 sc1]
          obtain c1 out b where rc: "node_insert fs x mx (cs1 ! i1) = Some (c1, out, b)"
            and c1: "shaped c1" "loaded c1" "inorder c1 = ins x (inorder (cs1 ! i1))" by blast
          note w = node_with_child [OF len1 srt1 i1 pos [THEN conjunct1] pos [THEN conjunct2]
              c1(3) c1(1) c1(2) shc1 ldc1 nl0, where d = b]
          show ?thesis
            unfolding r1 rc using w w1 by (auto simp add: n)
        qed
      qed
    qed
  qed
qed

subsection \<open>Insertion into the tree\<close>

lemma ReplaceOrInsert_ok:
  assumes m: "1 \<le> maxItems t"
    and r: "root t = Some r" and inv: "shaped r" "loaded r" "sorted_wrt Less (inorder r)"
  shows "\<exists>t1 out r1. ReplaceOrInsert fs x t = Some (t1, out) \<and> root t1 = Some r1
           \<and> degree t1 = degree t
           \<and> shaped r1 \<and> loaded r1 \<and> inorder r1 = ins x (inorder r)"
proof -
  define r0 where "r0 = (if int (length (items r)) \<ge> maxItems t then
       Node [items r ! nat (maxItems t div 2)]
         [Node (take (nat (maxItems t div 2)) (items r)) (take (Suc (nat (maxItems t div 2))) (children r))
            (notloaded r) (dirty r) (hashid r),
          Node (drop (Suc (nat (maxItems t div 2))) (items r)) (drop (Suc (nat (maxItems t div 2))) (children r))
            False False []] False False []
     else r)"
  have pre: "(if int (length (items r)) \<ge> maxItems t then
                     do {
                       (item2, oldroot, second) \<leftarrow> split r (go_div (maxItems t) 2);
                       Some (set_children [oldroot, second] (set_items [item2] newNode))
                     }
                   else Some r) = Some r0"
    and r0: "shaped r0" "loaded r0" "inorder r0 = inorder r"
  proof -
    show "(if int (length (items r)) \<ge> maxItems t then
                     do {
                       (item2, oldroot, second) \<leftarrow> split r (go_div (maxItems t) 2);
                       Some (set_children [oldroot, second] (set_items [item2] newNode))
                     }
                   else Some r) = Some r0"
    proof (cases "int (length (items r)) \<ge> maxItems t")
      case True
      then show ?thesis
        using split_halves(1) [OF m True inv(1,2)] by (simp add: r0_def node_upd_defs)
    next
      case False
      then show ?thesis by (simp add: r0_def)
    qed
    show "shaped r0"
    proof (cases "int (length (items r)) \<ge> maxItems t")
      case True
      then show ?thesis
        using split_halves(2,3) [OF m True inv(1,2)] by (simp add: r0_def)
    next
      case False
      then show ?thesis using inv by (simp add: r0_def)
    qed
    show "loaded r0"
    proof (cases "int (length (items r)) \<ge> maxItems t")
      case True
      then show ?thesis
        using split_halves(4,5) [OF m True inv(1,2)] by (simp add: r0_def)
    next
      case False
      then show ?thesis using inv by (simp add: r0_def)
    qed
    show "inorder r0 = inorder r"
    proof (cases "int (length (items r)) \<ge> maxItems t")
      case True
      then show ?thesis
        using split_halves(8) [OF m True inv(1,2)] by (simp add: r0_def)
    next
      case False
      then show ?thesis by (simp add: r0_def)
    qed
  qed
  have s0: "sorted_wrt Less (inorder r0)" using r0(3) inv(3) by simp
  from node_insert_ok [OF m r0(1) r0(2) s0, of fs x]
  obtain r2 out d where ni: "node_insert fs x (maxItems t) r0 = Some (r2, out, d)"
    and r2: "shaped r2" "loaded r2" "inorder r2 = ins x (inorder r0)" by blast
  have e: "ReplaceOrInsert fs x t
           = Some (t\<lparr>root := Some (set_dirty d r2),
                     length_t := (if out = None then length_t t + 1 else length_t t)\<rparr>, out)"
    unfolding ReplaceOrInsert_def r by (simp add: pre ni)
  have sd: "shaped (set_dirty d r2)" "loaded (set_dirty d r2)" "inorder (set_dirty d r2) = inorder r2"
    using r2(1,2) by (cases r2; simp add: set_dirty_def)+
  show ?thesis
    unfolding e using sd r2(3) r0(3) by simp
qed

lemma ReplaceOrInsert_all_ok:
  assumes m: "1 \<le> maxItems t"
  shows "root t = Some r \<Longrightarrow> shaped r \<Longrightarrow> loaded r \<Longrightarrow> sorted_wrt Less (inorder r)
     \<Longrightarrow> \<exists>t1 r1. ReplaceOrInsert_all fs xs t = Some t1 \<and> root t1 = Some r1
           \<and> shaped r1 \<and> sorted_wrt Less (inorder r1)
           \<and> inorder r1 = fold ins xs (inorder r)"
  using m
proof (induction xs arbitrary: t r)
  case Nil
  then show ?case by simp
next
  case (Cons x xs)
  from ReplaceOrInsert_ok [OF Cons.prems(5,1,2,3,4), of fs x]
  obtain t1 out r1 where s: "ReplaceOrInsert fs x t = Some (t1, out)" "root t1 = Some r1"
    "degree t1 = degree t" "shaped r1" "loaded r1" "inorder r1 = ins x (inorder r)" by blast
  have m1: "1 \<le> maxItems t1" using Cons.prems(5) s(3) by (simp add: maxItems_def)
  have srt: "sorted_wrt Less (inorder r1)" using s(6) Cons.prems(4) by (simp add: sorted_ins)
  from Cons.IH [OF s(2) s(4) s(5) srt m1]
  show ?case using s(1) s(6) by simp
qed

lemma Open_empty:
  "root (Open empty_world name) = Some (Node [] [] True False [])"
  "maxItems (Open empty_world name) = 7"
  by (simp_all add: Open_def empty_world_def getTableENS_def node_upd_defs maxItems_def)

lemma visit_record_all: "visit record_all xs tr = tr @ xs"
  by (induction xs arbitrary: tr) (simp_all add: record_all_def)

subsection \<open>The keys of \<^verbatim>\<open>main\<close> are in the order of their numbers\<close>

lemma hexdigit_mono: "a < b \<Longrightarrow> b < 16 \<Longrightarrow> hexdigit a < hexdigit b"
proof -
  assume ab: "a < b" "b < 16"
  have "sorted_wrt (<) ''0123456789abcdef''" by code_simp
  then show ?thesis
    using ab unfolding hexdigit_def by (simp add: sorted_wrt_iff_nth_less)
qed

lemma length_digits: "length (digits k n) = k"
  by (induction k arbitrary: n) auto

lemma digits_zero: "digits k 0 = replicate k CHR ''0''"
  by (induction k) (simp_all add: hexdigit_def replicate_append_same)

lemma pad_hex:
  "n < 16 ^ Suc k \<Longrightarrow> replicate (Suc k - length (hex n)) CHR ''0'' @ hex n = digits (Suc k) n"
proof (induction k arbitrary: n)
  case 0
  then show ?case by (subst hex.simps, subst hex.simps) simp
next
  case (Suc k)
  show ?case
  proof (cases "n < 16")
    case True
    then have "hex n = [hexdigit n]" by (subst hex.simps) simp
    then show ?thesis using True by (simp add: digits_zero)
  next
    case False
    then have h: "hex n = hex (n div 16) @ [hexdigit (n mod 16)]" by (subst hex.simps) simp
    have "n div 16 < 16 ^ Suc k" using Suc.prems by (simp add: less_mult_imp_div_less)
    from Suc.IH [OF this] show ?thesis by (simp add: h)
  qed
qed

lemma digits_mono: "a < b \<Longrightarrow> b < 16 ^ k \<Longrightarrow> digits k a < digits k b"
proof (induction k arbitrary: a b)
  case 0
  then show ?case by simp
next
  case (Suc k)
  have le: "a div 16 \<le> b div 16" using Suc.prems(1) by (simp add: div_le_mono)
  show ?case
  proof (cases "a div 16 < b div 16")
    case True
    have "b div 16 < 16 ^ k" using Suc.prems(2) by (simp add: less_mult_imp_div_less)
    from Suc.IH [OF True this]
    have "(digits k (a div 16), digits k (b div 16)) \<in> lexord {(u, v). u < v}"
      by (simp add: list_less_def)
    then have "(digits k (a div 16) @ [hexdigit (a mod 16)], digits k (b div 16) @ [hexdigit (b mod 16)])
               \<in> lexord {(u, v). u < v}"
      by (rule lexord_sufI) (simp add: length_digits)
    then show ?thesis by (simp add: list_less_def)
  next
    case False
    then have e: "a div 16 = b div 16" using le by simp
    then have "a mod 16 < b mod 16"
      using Suc.prems(1) by (metis div_mult_mod_eq nat_add_left_cancel_less)
    then have "hexdigit (a mod 16) < hexdigit (b mod 16)" by (rule hexdigit_mono) simp
    then have "(digits k (b div 16) @ hexdigit (a mod 16) # [], digits k (b div 16) @ hexdigit (b mod 16) # [])
               \<in> lexord {(u, v). u < v}"
      by (intro lexord_append_left_rightI) simp
    then show ?thesis by (simp add: list_less_def e)
  qed
qed

lemma Sprintf_06x_mono: "a < b \<Longrightarrow> b < 16 ^ 6 \<Longrightarrow> Sprintf_06x a < Sprintf_06x b"
proof -
  assume ab: "a < b" "b < 16 ^ 6"
  have "Sprintf_06x a = digits 6 a" "Sprintf_06x b = digits 6 b"
    using pad_hex [of a 5] pad_hex [of b 5] ab by (simp_all add: Sprintf_06x_def)
  then show ?thesis using digits_mono [OF ab] by simp
qed

lemma main_items_sorted: "n \<le> 16 ^ 6 \<Longrightarrow> sorted_wrt Less (map main_item [0 ..< n])"
  by (simp add: sorted_wrt_iff_nth_less Less_def main_item_def Sprintf_06x_mono)

subsection \<open>The items after a sequence of insertions\<close>

lemma keys_fold_ins: "ikey ` set (fold ins xs acc) = ikey ` set xs \<union> ikey ` set acc"
  by (induction xs arbitrary: acc) (auto simp: keys_ins)

lemma vals_fold_ins:
  "\<forall>y \<in> set xs. ival y = v \<Longrightarrow> \<forall>y \<in> set acc. ival y = v \<Longrightarrow> \<forall>y \<in> set (fold ins xs acc). ival y = v"
proof (induction xs arbitrary: acc)
  case Nil
  then show ?case by simp
next
  case (Cons x xs)
  have "\<forall>y \<in> set (ins x acc). ival y = v"
    using Cons.prems by (intro vals_ins) simp_all
  then show ?case using Cons.IH [of "ins x acc"] Cons.prems(1) by simp
qed

lemma sorted_fold_ins: "sorted_wrt Less acc \<Longrightarrow> sorted_wrt Less (fold ins xs acc)"
  by (induction xs arbitrary: acc) (simp_all add: sorted_ins)

lemma sorted_same_keys:
  assumes "sorted_wrt Less A" "sorted_wrt Less B" and "ikey ` set A = ikey ` set B"
    and "\<forall>y \<in> set A. ival y = v" "\<forall>y \<in> set B. ival y = v"
  shows "A = B"
proof -
  have sa: "sorted_wrt (<) (map ikey A)" and sb: "sorted_wrt (<) (map ikey B)"
    using assms(1,2) by (simp_all add: sorted_wrt_map Less_def [abs_def])
  have "map ikey A = map ikey B"
    using sa sb assms(3) unfolding strict_sorted_iff
    by (intro sorted_distinct_set_unique) simp_all
  moreover have "A = map (\<lambda>k. DBIndex k v) (map ikey A)"
    using assms(4) by (induction A) auto
  moreover have "B = map (\<lambda>k. DBIndex k v) (map ikey B)"
    using assms(5) by (induction B) auto
  ultimately show ?thesis by metis
qed

text \<open>Any sequence of insertions that covers the keys \<open>0 .. n - 1\<close> builds the same items.\<close>

lemma fold_ins_main_items:
  assumes "set vals = {0 ..< n}" "n \<le> 16 ^ 6"
  shows "fold ins (map main_item vals) [] = map main_item [0 ..< n]"
proof (rule sorted_same_keys [where v = "''whateverwewant''"])
  show "sorted_wrt Less (fold ins (map main_item vals) [])" by (simp add: sorted_fold_ins)
  show "sorted_wrt Less (map main_item [0 ..< n])" using assms(2) by (rule main_items_sorted)
  show "ikey ` set (fold ins (map main_item vals) []) = ikey ` set (map main_item [0 ..< n])"
    using assms(1) by (simp add: keys_fold_ins)
  show "\<forall>y \<in> set (fold ins (map main_item vals) []). ival y = ''whateverwewant''"
    by (rule vals_fold_ins) (simp_all add: main_item_def)
  show "\<forall>y \<in> set (map main_item [0 ..< n]). ival y = ''whateverwewant''"
    by (simp add: main_item_def)
qed

lemma main_scenario:
  assumes "set vals = {0 ..< n}" "n \<le> 16 ^ 6"
  shows "\<exists>t1. ReplaceOrInsert_all Map.empty (map main_item vals) (Open empty_world name) = Some t1
          \<and> Ascend t1 record_all [] = Some (map main_item [0 ..< n])"
proof -
  have m: "1 \<le> maxItems (Open empty_world name)" by (simp add: Open_empty)
  from ReplaceOrInsert_all_ok [OF m Open_empty(1), of Map.empty "map main_item vals"]
  obtain t1 r1 where t1: "ReplaceOrInsert_all Map.empty (map main_item vals) (Open empty_world name) = Some t1"
    "root t1 = Some r1" "shaped r1" "sorted_wrt Less (inorder r1)"
    "inorder r1 = fold ins (map main_item vals) []"
    by auto
  have "Ascend t1 record_all [] = Some (inorder r1)"
    using Ascend_visits [OF t1(2,3,4), of record_all "[]"] by (simp add: visit_record_all)
  then show ?thesis
    using t1(1,5) fold_ins_main_items [OF assms] by simp
qed

text \<open>
  C4. For a B-tree that is held in memory (every node has no children or one more than
  items, and the items in order are strictly increasing by key), \<^verbatim>\<open>AscendRange(start, stop,
  visitor)\<close> calls the visitor on the items \<open>k\<close> with \<open>start \<le> k < stop\<close>, in the order of the
  tree, which is strictly increasing, and stops at the first item for which the visitor
  returns false: the visitor's state after the call is that of \<^const>\<open>visit\<close> on the list of
  those items, and a visitor that records what it is given records exactly that list.
  And whatever the order in which \<^verbatim>\<open>main\<close> inserts the keys \<open>0, \<dots>, 1199\<close> into the tree
  \<^verbatim>\<open>Open\<close> makes for a new table, every insertion returns and \<^verbatim>\<open>Ascend\<close> then visits the
  items of the keys \<open>0, 1, \<dots>, 1199\<close> in this order.
\<close>

theorem AscendRange_visits_the_range_in_order:
  assumes "root t = Some r" and "shaped r" and "sorted_wrt Less (inorder r)"
    and "set vals = {0 ..< 1200}"
  shows "AscendRange t (Some start) (Some stop) iter s
           = Some (visit iter (filter (\<lambda>x. \<not> Less x start \<and> Less x stop) (inorder r)) s)
       \<and> AscendRange t (Some start) (Some stop) record_all []
           = Some (filter (\<lambda>x. \<not> Less x start \<and> Less x stop) (inorder r))
       \<and> sorted_wrt Less (filter (\<lambda>x. \<not> Less x start \<and> Less x stop) (inorder r))
       \<and> (\<exists>t1. ReplaceOrInsert_all Map.empty (map main_item vals) (Open empty_world name) = Some t1
              \<and> Ascend t1 record_all [] = Some (map main_item [0 ..< 1200]))"
proof (intro conjI)
  show "AscendRange t (Some start) (Some stop) iter s
           = Some (visit iter (filter (\<lambda>x. \<not> Less x start \<and> Less x stop) (inorder r)) s)"
    using assms(1,2,3) by (rule AscendRange_visits)
  show "AscendRange t (Some start) (Some stop) record_all []
           = Some (filter (\<lambda>x. \<not> Less x start \<and> Less x stop) (inorder r))"
    using AscendRange_visits [OF assms(1,2,3), of start stop record_all "[]"]
    by (simp add: visit_record_all)
  show "sorted_wrt Less (filter (\<lambda>x. \<not> Less x start \<and> Less x stop) (inorder r))"
    using assms(3) by (rule sorted_wrt_filter)
  show "\<exists>t1. ReplaceOrInsert_all Map.empty (map main_item vals) (Open empty_world name) = Some t1
              \<and> Ascend t1 record_all [] = Some (map main_item [0 ..< 1200])"
    using assms(4) by (rule main_scenario) simp
qed

theorem AscendRange_visits_the_range_in_order_witness:
  "root tree_sample = Some (Node [DBIndex ''2'' ''v'']
                     [Node [DBIndex ''1'' ''v''] [] False False [],
                      Node [DBIndex ''3'' ''v''] [] False False []] False False [])
   \<and> shaped (Node [DBIndex ''2'' ''v'']
                     [Node [DBIndex ''1'' ''v''] [] False False [],
                      Node [DBIndex ''3'' ''v''] [] False False []] False False [])
   \<and> inorder (Node [DBIndex ''2'' ''v'']
                     [Node [DBIndex ''1'' ''v''] [] False False [],
                      Node [DBIndex ''3'' ''v''] [] False False []] False False [])
       = [DBIndex ''1'' ''v'', DBIndex ''2'' ''v'', DBIndex ''3'' ''v'']
   \<and> sorted_wrt Less [DBIndex ''1'' ''v'', DBIndex ''2'' ''v'', DBIndex ''3'' ''v'']
   \<and> set (rev [0 ..< 1200]) = {0 ..< 1200}
   \<and> AscendRange tree_sample (Some (DBIndex ''2'' [])) (Some (DBIndex ''3'' [])) (record_until ''2'') []
       = Some (visit (record_until ''2'')
           (filter (\<lambda>x. \<not> Less x (DBIndex ''2'' []) \<and> Less x (DBIndex ''3'' []))
              [DBIndex ''1'' ''v'', DBIndex ''2'' ''v'', DBIndex ''3'' ''v'']) [])
   \<and> AscendRange tree_sample (Some (DBIndex ''2'' [])) (Some (DBIndex ''3'' [])) record_all []
       = Some (filter (\<lambda>x. \<not> Less x (DBIndex ''2'' []) \<and> Less x (DBIndex ''3'' []))
              [DBIndex ''1'' ''v'', DBIndex ''2'' ''v'', DBIndex ''3'' ''v''])
   \<and> (\<exists>t1. ReplaceOrInsert_all Map.empty (map main_item (rev [0 ..< 1200])) (Open empty_world ''contacts'')
              = Some t1
          \<and> Ascend t1 record_all [] = Some (map main_item [0 ..< 1200]))"
proof -
  let ?r = "Node [DBIndex ''2'' ''v'']
                     [Node [DBIndex ''1'' ''v''] [] False False [],
                      Node [DBIndex ''3'' ''v''] [] False False []] False False []"
  have h1: "root tree_sample = Some ?r" by (simp add: tree_sample_def)
  have h2: "shaped ?r" by simp
  have io: "inorder ?r = [DBIndex ''1'' ''v'', DBIndex ''2'' ''v'', DBIndex ''3'' ''v'']" by simp
  have srt: "sorted_wrt Less [DBIndex ''1'' ''v'', DBIndex ''2'' ''v'', DBIndex ''3'' ''v'']"
    by code_simp
  have h3: "sorted_wrt Less (inorder ?r)" unfolding io by (rule srt)
  have h4: "set (rev [0 ..< 1200]) = {0 ..< 1200}" by (simp only: set_rev set_upt)
  note w = AscendRange_visits_the_range_in_order [OF h1 h2 h3 h4,
      where start = "DBIndex ''2'' []" and stop = "DBIndex ''3'' []"
        and iter = "record_until ''2''" and s = "[]" and name = "''contacts''", unfolded io]
  show ?thesis
    using h1 h2 io srt h4 w by (intro conjI) (elim conjE, assumption)+
qed

end
